theory Spec2Isabelle
  imports Main "HOL-Library.Product_Lexorder" "HOL-Library.List_Lexorder"
begin

section \<open>Data model of \<open>CityGrid\<close> (src/main.py)\<close>

text \<open>
  A block of the grid holds the integer \<open>0\<close> or a one-character string. \<open>Empty\<close> is
  \<open>0\<close>, \<open>Obstructed\<close> is \<open>'X'\<close>, \<open>Covered\<close> is \<open>'#'\<close>, \<open>Station\<close> is \<open>'|'\<close>; the three
  markers written by \<open>build_path_on_grid\<close> are \<open>PathMark\<close> (\<open>'*'\<close>), \<open>BeginMark\<close> (\<open>'B'\<close>)
  and \<open>EndMark\<close> (\<open>'E'\<close>).
\<close>

datatype cell = Empty | Obstructed | Covered | Station | PathMark | BeginMark | EndMark

text \<open>The only exception the modelled methods can raise is Python's \<open>IndexError\<close>.\<close>

datatype error = IndexError

type_synonym coord = "int \<times> int"

text \<open>The attributes of a \<open>CityGrid\<close> object. Python integers are unbounded: \<open>int\<close>.\<close>

record city_grid =
  n :: int
  m :: int
  tower_radius :: int
  grid :: "cell list list"
  towers :: "coord list"

subsection \<open>Python list indexing and \<open>range\<close>\<close>

text \<open>
  \<open>xs[i]\<close> on a list of length \<open>len\<close>: a negative index counts from the end, and an
  index outside \<open>[-len, len)\<close> raises \<open>IndexError\<close>. \<open>py_norm len i\<close> is the position
  that is read or written.
\<close>

definition py_norm :: "nat \<Rightarrow> int \<Rightarrow> error + nat" where
  "py_norm len i =
     (let k = (if i < 0 then int len + i else i)
      in if 0 \<le> k \<and> k < int len then Inr (nat k) else Inl IndexError)"

text \<open>\<open>range(a, b)\<close>: the integers from \<open>a\<close> up to \<open>b - 1\<close>, none when \<open>b \<le> a\<close>.\<close>

definition range_py :: "int \<Rightarrow> int \<Rightarrow> int list" where
  "range_py a b = [a..b - 1]"

text \<open>
  The pairs visited by \<open>for i in range(a, b): for j in range(c, d)\<close>, in the order of
  the visit (row-major).
\<close>

definition cells_between :: "int \<Rightarrow> int \<Rightarrow> int \<Rightarrow> int \<Rightarrow> coord list" where
  "cells_between a b c d = List.product (range_py a b) (range_py c d)"

text \<open>\<open>xs[i]\<close> as an expression.\<close>

definition py_index :: "'a list \<Rightarrow> int \<Rightarrow> error + 'a" where
  "py_index xs i = (case py_norm (length xs) i of Inl e \<Rightarrow> Inl e | Inr k \<Rightarrow> Inr (xs ! k))"

subsection \<open>Reading and writing a block\<close>

text \<open>\<open>self.grid[i][j]\<close> as an expression.\<close>

definition get_cell :: "city_grid \<Rightarrow> int \<Rightarrow> int \<Rightarrow> error + cell" where
  "get_cell g i j =
     (case py_index (grid g) i of
        Inl e \<Rightarrow> Inl e
      | Inr row \<Rightarrow> py_index row j)"

text \<open>
  \<open>self.grid[i][j] = v\<close>. The rows are distinct list objects (the constructor builds
  each with its own comprehension), so the assignment changes one block.
\<close>

definition set_cell :: "city_grid \<Rightarrow> int \<Rightarrow> int \<Rightarrow> cell \<Rightarrow> error + city_grid" where
  "set_cell g i j v =
     (case py_norm (length (grid g)) i of
        Inl e \<Rightarrow> Inl e
      | Inr a \<Rightarrow>
          (case py_norm (length (grid g ! a)) j of
             Inl e \<Rightarrow> Inl e
           | Inr b \<Rightarrow> Inr (g\<lparr>grid := (grid g)[a := (grid g ! a)[b := v]]\<rparr>)))"

section \<open>Coverage and tower placement\<close>

text \<open>
  \<open>get_coverage\<close>: the loop body over the blocks still to visit, with the running
  counter \<open>coverage\<close>.
\<close>

fun count_uncovered :: "city_grid \<Rightarrow> coord list \<Rightarrow> int \<Rightarrow> error + int" where
  "count_uncovered g [] coverage = Inr coverage"
| "count_uncovered g ((i, j) # cs) coverage =
     (case get_cell g i j of
        Inl e \<Rightarrow> Inl e
      | Inr c \<Rightarrow> count_uncovered g cs (if c = Empty then coverage + 1 else coverage))"

definition get_coverage :: "city_grid \<Rightarrow> int \<Rightarrow> int \<Rightarrow> int \<Rightarrow> error + int" where
  "get_coverage g x y R =
     count_uncovered g
       (cells_between (max 0 (x - R)) (min (n g) (x + R + 1))
                      (max 0 (y - R)) (min (m g) (y + R + 1))) 0"

text \<open>\<open>get_uncovered_blocks\<close>: the loop with the list built so far.\<close>

fun collect_uncovered :: "city_grid \<Rightarrow> coord list \<Rightarrow> coord list \<Rightarrow> error + coord list" where
  "collect_uncovered g [] uncovered_blocks = Inr uncovered_blocks"
| "collect_uncovered g ((i, j) # cs) uncovered_blocks =
     (case get_cell g i j of
        Inl e \<Rightarrow> Inl e
      | Inr c \<Rightarrow>
          collect_uncovered g cs
            (if c = Empty then uncovered_blocks @ [(i, j)] else uncovered_blocks))"

definition get_uncovered_blocks :: "city_grid \<Rightarrow> error + coord list" where
  "get_uncovered_blocks g = collect_uncovered g (cells_between 0 (n g) 0 (m g)) []"

text \<open>
  \<open>place_tower\<close>: the two nested loops that turn every \<open>0\<close> in the square around the
  tower into \<open>'#'\<close>.
\<close>

fun mark_covered :: "city_grid \<Rightarrow> coord list \<Rightarrow> error + city_grid" where
  "mark_covered g [] = Inr g"
| "mark_covered g ((i, j) # cs) =
     (case get_cell g i j of
        Inl e \<Rightarrow> Inl e
      | Inr c \<Rightarrow>
          if c = Empty then
            (case set_cell g i j Covered of
               Inl e \<Rightarrow> Inl e
             | Inr g' \<Rightarrow> mark_covered g' cs)
          else mark_covered g cs)"

text \<open>
  \<open>place_tower(x, y, r)\<close>. On a block holding \<open>'|'\<close> or \<open>'X'\<close> the method prints a
  message and returns with nothing changed; printing is not modelled.
\<close>

definition place_tower :: "city_grid \<Rightarrow> int \<Rightarrow> int \<Rightarrow> int \<Rightarrow> error + city_grid" where
  "place_tower g x y r =
     (case get_cell g x y of
        Inl e \<Rightarrow> Inl e
      | Inr c \<Rightarrow>
          if c \<noteq> Station \<and> c \<noteq> Obstructed then
            (case set_cell g x y Station of
               Inl e \<Rightarrow> Inl e
             | Inr g1 \<Rightarrow>
                 mark_covered (g1\<lparr>towers := towers g1 @ [(x, y)]\<rparr>)
                   (cells_between (max 0 (x - r)) (min (n g1) (x + r + 1))
                                  (max 0 (y - r)) (min (m g1) (y + r + 1))))
          else Inr g)"

text \<open>
  The scan of \<open>place_optimal_towers\<close> for the best position: the blocks still to visit
  and the pair \<open>(best_tower_position, best_coverage)\<close>.
\<close>

fun best_scan ::
  "city_grid \<Rightarrow> coord list \<Rightarrow> coord option \<times> int \<Rightarrow> error + (coord option \<times> int)" where
  "best_scan g [] acc = Inr acc"
| "best_scan g ((i, j) # cs) (best_tower_position, best_coverage) =
     (case get_cell g i j of
        Inl e \<Rightarrow> Inl e
      | Inr c \<Rightarrow>
          if c = Covered \<or> c = Empty then
            (case get_coverage g i j (tower_radius g) of
               Inl e \<Rightarrow> Inl e
             | Inr coverage \<Rightarrow>
                 if coverage > best_coverage
                 then best_scan g cs (Some (i, j), coverage)
                 else best_scan g cs (best_tower_position, best_coverage))
          else best_scan g cs (best_tower_position, best_coverage))"

text \<open>
  Modelled from the spec: \<open>display_info\<close> is called by \<open>place_optimal_towers\<close> but is not
  defined in src/main.py. The spec describes the renderer as a read-only consumer of the
  grid that never mutates it, so it leaves the object as it is.
\<close>

definition display_info :: "city_grid \<Rightarrow> city_grid" where
  "display_info g = g"

text \<open>
  One pass through the body of the \<open>while uncovered_blocks:\<close> loop, from the object and
  the current value of \<open>uncovered_blocks\<close> to their values at the end of the body. When no
  position is found the body changes nothing, \<open>uncovered_blocks\<close> included.
\<close>

definition place_step :: "city_grid \<Rightarrow> coord list \<Rightarrow> error + (city_grid \<times> coord list)" where
  "place_step g uncovered_blocks =
     (case best_scan g (cells_between 0 (n g) 0 (m g)) (None, 0) of
        Inl e \<Rightarrow> Inl e
      | Inr (best_tower_position, best_coverage) \<Rightarrow>
          (case best_tower_position of
             None \<Rightarrow> Inr (g, uncovered_blocks)
           | Some (bi, bj) \<Rightarrow>
               (case place_tower g bi bj (tower_radius g) of
                  Inl e \<Rightarrow> Inl e
                | Inr g1 \<Rightarrow>
                    (case get_uncovered_blocks (display_info g1) of
                       Inl e \<Rightarrow> Inl e
                     | Inr u \<Rightarrow> Inr (display_info g1, u)))))"

text \<open>
  The \<open>while\<close> loop. It has no bound of its own, so it is a partial function: \<open>None\<close>
  is the loop that never ends, \<open>Some (Inl e)\<close> a raised exception, \<open>Some (Inr g)\<close> the
  object when the loop has ended.
\<close>

partial_function (option) place_loop ::
  "city_grid \<Rightarrow> coord list \<Rightarrow> (error + city_grid) option" where
  "place_loop g uncovered_blocks =
     (if uncovered_blocks = [] then Some (Inr g)
      else (case place_step g uncovered_blocks of
              Inl e \<Rightarrow> Some (Inl e)
            | Inr (g', u') \<Rightarrow> place_loop g' u'))"

declare place_loop.simps [code]

definition place_optimal_towers :: "city_grid \<Rightarrow> (error + city_grid) option" where
  "place_optimal_towers g =
     (case get_uncovered_blocks g of
        Inl e \<Rightarrow> Some (Inl e)
      | Inr u \<Rightarrow> place_loop g u)"

text \<open>
  The same loop with a budget of passes through the body: \<open>None\<close> when the budget is
  used up before the loop has ended.
\<close>

fun place_loop_bounded ::
  "nat \<Rightarrow> city_grid \<Rightarrow> coord list \<Rightarrow> (error + city_grid) option" where
  "place_loop_bounded k g uncovered_blocks =
     (if uncovered_blocks = [] then Some (Inr g)
      else (case k of
              0 \<Rightarrow> None
            | Suc k' \<Rightarrow>
                (case place_step g uncovered_blocks of
                   Inl e \<Rightarrow> Some (Inl e)
                 | Inr (g', u') \<Rightarrow> place_loop_bounded k' g' u')))"

declare place_loop_bounded.simps [simp del]

section \<open>Path search\<close>

text \<open>
  An element of \<open>open_list\<close>: the priority key, the block, and the path that led to
  the block (the block itself left out). Python compares these tuples lexicographically,
  and the paths as lists, lexicographically too; that is the order of the product and
  list instances imported above.
\<close>

type_synonym entry = "int \<times> coord \<times> coord list"

text \<open>
  The two nested loops of \<open>find_path\<close> over the neighbours of \<open>(x, y)\<close>, appending to
  \<open>open_list\<close>. Python's \<open>and\<close> reads the grid only when \<open>(i, j)\<close> differs from
  \<open>(x, y)\<close>.
\<close>

fun expand ::
  "city_grid \<Rightarrow> coord \<Rightarrow> coord \<Rightarrow> coord list \<Rightarrow> coord list \<Rightarrow> entry list \<Rightarrow> error + entry list" where
  "expand g end_t (x, y) path [] open_list = Inr open_list"
| "expand g end_t (x, y) path ((i, j) # cs) open_list =
     (if i \<noteq> x \<or> j \<noteq> y then
        (case get_cell g i j of
           Inl e \<Rightarrow> Inl e
         | Inr c \<Rightarrow>
             if c = Covered \<or> c = Station then
               expand g end_t (x, y) path cs
                 (open_list @
                    [(int (length path) + 1 + \<bar>i - fst end_t\<bar> + \<bar>j - snd end_t\<bar>,
                      (i, j), path @ [(x, y)])])
             else expand g end_t (x, y) path cs open_list)
      else expand g end_t (x, y) path cs open_list)"

text \<open>
  One pass through the body of \<open>while open_list:\<close>, for a non-empty \<open>open_list\<close>.
  \<open>min\<close> gives the first least element and \<open>remove\<close> deletes the first element equal
  to it. \<open>Inl\<close> is a \<open>return\<close> or an exception, with the object as it is then; \<open>Inr\<close> is
  the object and the two local variables at the end of the body.
\<close>

definition find_path_step ::
  "city_grid \<Rightarrow> coord \<Rightarrow> entry list \<Rightarrow> coord set \<Rightarrow>
     ((error + coord list option) \<times> city_grid) + (city_grid \<times> entry list \<times> coord set)" where
  "find_path_step g end_t open_list closed_list =
     (case min_list open_list of
        (f, (x, y), path) \<Rightarrow>
          (let open1 = remove1 (f, (x, y), path) open_list in
           if (x, y) = end_t then Inl (Inr (Some (path @ [(x, y)])), g)
           else if (x, y) \<in> closed_list then Inr (g, open1, closed_list)
           else
             (case expand g end_t (x, y) path
                     (cells_between (max 0 (x - 1)) (min (n g) (x + 2))
                                    (max 0 (y - 1)) (min (m g) (y + 2))) open1 of
                Inl e \<Rightarrow> Inl (Inl e, g)
              | Inr open2 \<Rightarrow> Inr (g, open2, insert (x, y) closed_list))))"

subsection \<open>The search loop ends\<close>

text \<open>
  The loop of \<open>find_path\<close> is defined with its termination proof. The measure is the
  number of blocks that are in the grid or in \<open>open_list\<close> and not yet in
  \<open>closed_list\<close>, then the length of \<open>open_list\<close>.
\<close>

text \<open>The block of an element of \<open>open_list\<close>.\<close>

definition entry_pos :: "entry \<Rightarrow> coord" where
  "entry_pos e = fst (snd e)"

definition search_space :: "city_grid \<Rightarrow> entry list \<Rightarrow> coord set \<Rightarrow> coord set" where
  "search_space g open_list closed_list =
     (set (cells_between 0 (n g) 0 (m g)) \<union> entry_pos ` set open_list) - closed_list"

lemma set_range_py: "set (range_py a b) = {a..<b}"
  by (auto simp: range_py_def)

lemma set_cells_between: "set (cells_between a b c d) = {a..<b} \<times> {c..<d}"
  by (simp add: cells_between_def set_range_py)

lemma min_list_in: "xs \<noteq> [] \<Longrightarrow> min_list xs \<in> set xs"
  by (induction xs rule: min_list.induct) (auto simp: min_def split: list.splits)

lemma find_path_step_closed:
  assumes "min_list open_list = (f, (x, y), path)" "(x, y) \<in> closed_list"
    and "find_path_step g end_t open_list closed_list = Inr (g', open2, closed2)"
  shows "g' = g \<and> open2 = remove1 (f, (x, y), path) open_list \<and> closed2 = closed_list"
  using assms unfolding find_path_step_def Let_def
  by (simp split: if_splits)

lemma find_path_step_fresh:
  assumes "min_list open_list = (f, (x, y), path)" "(x, y) \<notin> closed_list"
    and "find_path_step g end_t open_list closed_list = Inr (g', open2, closed2)"
  shows "g' = g \<and> closed2 = insert (x, y) closed_list \<and>
     expand g end_t (x, y) path
       (cells_between (max 0 (x - 1)) (min (n g) (x + 2)) (max 0 (y - 1)) (min (m g) (y + 2)))
       (remove1 (f, (x, y), path) open_list) = Inr open2"
  using assms unfolding find_path_step_def Let_def
  by (simp split: if_splits sum.splits)

lemma expand_positions:
  "expand g end_t xy path cs open_list = Inr open2 \<Longrightarrow>
   entry_pos ` set open2 \<subseteq> entry_pos ` set open_list \<union> set cs"
proof (induction g end_t xy path cs open_list rule: expand.induct)
  case (1 g end_t x y path open_list)
  then show ?case by simp
next
  case (2 g end_t x y path i j cs open_list)
  show ?case
  proof (cases "i \<noteq> x \<or> j \<noteq> y")
    case False
    with 2 show ?thesis by auto
  next
    case True
    note neq = this
    from 2(4) neq obtain c where c: "get_cell g i j = Inr c"
      by (cases "get_cell g i j") auto
    show ?thesis
    proof (cases "c = Covered \<or> c = Station")
      case False
      with 2(2) [OF neq c] 2(4) neq c show ?thesis by auto
    next
      case True
      with 2(1) [OF neq c] 2(4) neq c
      have "entry_pos ` set open2 \<subseteq>
            entry_pos ` set (open_list @ [(int (length path) + 1 + \<bar>i - fst end_t\<bar> + \<bar>j - snd end_t\<bar>,
                      (i, j), path @ [(x, y)])]) \<union> set cs"
        by simp
      then show ?thesis by (auto simp: entry_pos_def)
    qed
  qed
qed

lemma finite_search_space: "finite (search_space g open_list closed_list)"
  by (simp add: search_space_def)

lemma search_space_mono:
  assumes "entry_pos ` set open2 \<subseteq> entry_pos ` set open_list \<union> set (cells_between 0 (n g) 0 (m g))"
    and "closed_list \<subseteq> closed2"
  shows "search_space g open2 closed2 \<subseteq> search_space g open_list closed_list"
  using assms unfolding search_space_def by blast

lemma remove1_positions:
  "entry_pos ` set (remove1 e open_list) \<subseteq> entry_pos ` set open_list"
  using set_remove1_subset [of e open_list] by blast

lemma neighbours_in_grid:
  "set (cells_between (max 0 (x - 1)) (min (n g) (x + 2)) (max 0 (y - 1)) (min (m g) (y + 2)))
     \<subseteq> set (cells_between 0 (n g) 0 (m g))"
  unfolding set_cells_between by auto

lemma find_path_step_measure:
  assumes ne: "open_list \<noteq> []"
    and st: "find_path_step g end_t open_list closed_list = Inr (g', open2, closed2)"
  shows "card (search_space g' open2 closed2) < card (search_space g open_list closed_list) \<or>
         (card (search_space g' open2 closed2) = card (search_space g open_list closed_list) \<and>
          length open2 < length open_list)"
proof -
  obtain f x y path where mn: "min_list open_list = (f, (x, y), path)"
    by (metis prod.exhaust)
  have mem: "(f, (x, y), path) \<in> set open_list"
    using min_list_in [OF ne] mn by simp
  show ?thesis
  proof (cases "(x, y) \<in> closed_list")
    case True
    from find_path_step_closed [OF mn True st]
    have eq: "g' = g" "open2 = remove1 (f, (x, y), path) open_list" "closed2 = closed_list"
      by simp_all
    have len: "length open2 < length open_list"
      unfolding eq using mem length_pos_if_in_set [OF mem] by (simp add: length_remove1)
    have "search_space g' open2 closed2 \<subseteq> search_space g open_list closed_list"
      unfolding eq by (rule search_space_mono) (use remove1_positions in blast, simp)
    then have "card (search_space g' open2 closed2) \<le> card (search_space g open_list closed_list)"
      by (rule card_mono [OF finite_search_space])
    with len show ?thesis by linarith
  next
    case False
    let ?cs = "cells_between (max 0 (x - 1)) (min (n g) (x + 2)) (max 0 (y - 1)) (min (m g) (y + 2))"
    from find_path_step_fresh [OF mn False st]
    have eq: "g' = g" "closed2 = insert (x, y) closed_list"
      and ex: "expand g end_t (x, y) path ?cs (remove1 (f, (x, y), path) open_list) = Inr open2"
      by simp_all
    have "entry_pos ` set open2 \<subseteq> entry_pos ` set open_list \<union> set (cells_between 0 (n g) 0 (m g))"
      using expand_positions [OF ex] remove1_positions [of "(f, (x, y), path)" open_list]
        neighbours_in_grid [of x g y] by blast
    then have sub: "search_space g' open2 closed2 \<subseteq> search_space g open_list closed_list"
      unfolding eq by (rule search_space_mono) blast
    have "entry_pos (f, (x, y), path) \<in> entry_pos ` set open_list"
      using mem by (rule imageI)
    then have inB: "(x, y) \<in> search_space g open_list closed_list"
      using False by (simp add: search_space_def entry_pos_def)
    have notA: "(x, y) \<notin> search_space g' open2 closed2"
      unfolding eq by (simp add: search_space_def)
    have "search_space g' open2 closed2 \<subset> search_space g open_list closed_list"
      using sub inB notA by blast
    then have "card (search_space g' open2 closed2) < card (search_space g open_list closed_list)"
      by (rule psubset_card_mono [OF finite_search_space])
    then show ?thesis by simp
  qed
qed

text \<open>
  The loop \<open>while open_list:\<close>; falling out of it is \<open>return None\<close>. The result is
  paired with the object as it is when the method returns.
\<close>

function find_path_loop ::
  "city_grid \<Rightarrow> coord \<Rightarrow> entry list \<Rightarrow> coord set \<Rightarrow> (error + coord list option) \<times> city_grid" where
  "find_path_loop g end_t open_list closed_list =
     (if open_list = [] then (Inr None, g)
      else (case find_path_step g end_t open_list closed_list of
              Inl r \<Rightarrow> r
            | Inr (g', open2, closed2) \<Rightarrow> find_path_loop g' end_t open2 closed2))"
  by pat_completeness auto

termination
proof (relation "inv_image (less_than <*lex*> less_than)
         (\<lambda>(g, end_t, open_list, closed_list).
            (card (search_space g open_list closed_list), length open_list))", goal_cases)
  case 1
  show ?case by (intro wf_inv_image wf_lex_prod wf_less_than)
next
  case (2 g end_t open_list closed_list x2 g' y open2 closed2)
  have "x2 = (g', open2, closed2)"
    using 2(3,4) by simp
  with 2(2) have "find_path_step g end_t open_list closed_list = Inr (g', open2, closed2)"
    by (simp only:)
  from find_path_step_measure [OF 2(1) this] show ?case
    by simp
qed

declare find_path_loop.simps [simp del]

text \<open>\<open>find_path(start, end)\<close>, with \<open>open_list = [(0, start, [])]\<close> and an empty \<open>closed_list\<close>.\<close>

definition find_path ::
  "city_grid \<Rightarrow> coord \<Rightarrow> coord \<Rightarrow> (error + coord list option) \<times> city_grid" where
  "find_path g start end_t = find_path_loop g end_t [(0, start, [])] {}"

text \<open>
  The values of \<open>open_list\<close> and \<open>closed_list\<close> after \<open>k\<close> passes through the body of the
  search loop; \<open>None\<close> when the loop has ended before (it returned, raised, or found
  \<open>open_list\<close> empty).
\<close>

fun search_after :: "city_grid \<Rightarrow> coord \<Rightarrow> coord \<Rightarrow> nat \<Rightarrow> (entry list \<times> coord set) option" where
  "search_after g start end_t 0 = Some ([(0, start, [])], {})"
| "search_after g start end_t (Suc k) =
     (case search_after g start end_t k of
        None \<Rightarrow> None
      | Some (open_list, closed_list) \<Rightarrow>
          if open_list = [] then None
          else (case find_path_step g end_t open_list closed_list of
                  Inl r \<Rightarrow> None
                | Inr (g', open2, closed2) \<Rightarrow> Some (open2, closed2)))"

section \<open>Marking a path on the grid\<close>

text \<open>The loop of \<open>build_path_on_grid\<close> over the inner coordinates of the path.\<close>

fun mark_path :: "city_grid \<Rightarrow> coord list \<Rightarrow> error + city_grid" where
  "mark_path g [] = Inr g"
| "mark_path g (cord # cs) =
     (case set_cell g (fst cord) (snd cord) PathMark of
        Inl e \<Rightarrow> Inl e
      | Inr g' \<Rightarrow> mark_path g' cs)"

text \<open>
  \<open>build_path_on_grid(ttt_path)\<close>. The slice \<open>ttt_path[1:-1]\<close> drops the first and the
  last element (and is empty for a path of fewer than three elements): \<open>butlast (tl ttt_path)\<close>.
  The \<open>else\<close> branch of the \<open>for\<close> loop runs whenever the loop ends without \<open>break\<close>, that
  is always. \<open>ttt_path[0]\<close> and \<open>ttt_path[-1]\<close> raise \<open>IndexError\<close> on an empty list.
\<close>

definition build_path_on_grid :: "city_grid \<Rightarrow> coord list \<Rightarrow> error + city_grid" where
  "build_path_on_grid g ttt_path =
     (case mark_path g (butlast (tl ttt_path)) of
        Inl e \<Rightarrow> Inl e
      | Inr g1 \<Rightarrow>
          (case py_index ttt_path 0 of
             Inl e \<Rightarrow> Inl e
           | Inr first \<Rightarrow>
               (case set_cell g1 (fst first) (snd first) BeginMark of
                  Inl e \<Rightarrow> Inl e
                | Inr g2 \<Rightarrow>
                    (case py_index ttt_path (- 1) of
                       Inl e \<Rightarrow> Inl e
                     | Inr final \<Rightarrow> set_cell g2 (fst final) (snd final) EndMark))))"

section \<open>Well-formed objects\<close>

text \<open>
  What the constructor establishes (its three assertions and the shape of the list of
  rows) and no method changes: \<open>n\<close> rows of \<open>m\<close> blocks each and a positive radius.
\<close>

definition wf_grid :: "city_grid \<Rightarrow> bool" where
  "wf_grid g \<longleftrightarrow>
     0 < n g \<and> 0 < m g \<and> 0 < tower_radius g \<and>
     length (grid g) = nat (n g) \<and> list_all (\<lambda>row. length row = nat (m g)) (grid g)"

text \<open>A coordinate inside the grid, and the block found there.\<close>

definition in_bounds :: "city_grid \<Rightarrow> coord \<Rightarrow> bool" where
  "in_bounds g p \<longleftrightarrow> 0 \<le> fst p \<and> fst p < n g \<and> 0 \<le> snd p \<and> snd p < m g"

definition cell_at :: "city_grid \<Rightarrow> coord \<Rightarrow> cell" where
  "cell_at g p = grid g ! nat (fst p) ! nat (snd p)"

section \<open>Notions used in the statements and proofs\<close>

text \<open>The object after \<open>self.grid[i][j] = v\<close> at a coordinate inside the grid.\<close>

definition upd :: "city_grid \<Rightarrow> coord \<Rightarrow> cell \<Rightarrow> city_grid" where
  "upd g p v =
     g\<lparr>grid := (grid g)[nat (fst p) := (grid g ! nat (fst p))[nat (snd p) := v]]\<rparr>"

text \<open>
  Two objects of the same shape: the same dimensions, radius and list of towers, the
  second well formed.
\<close>

definition same_frame :: "city_grid \<Rightarrow> city_grid \<Rightarrow> bool" where
  "same_frame g g' \<longleftrightarrow>
     wf_grid g' \<and> n g' = n g \<and> m g' = m g \<and> tower_radius g' = tower_radius g \<and>
     towers g' = towers g"

text \<open>
  The square of blocks around \<open>(x, y)\<close> that \<open>place_tower\<close> and \<open>get_coverage\<close> both
  visit, clipped to the grid.
\<close>

definition window :: "city_grid \<Rightarrow> int \<Rightarrow> int \<Rightarrow> int \<Rightarrow> coord list" where
  "window g x y r =
     cells_between (max 0 (x - r)) (min (n g) (x + r + 1))
                   (max 0 (y - r)) (min (m g) (y + r + 1))"

text \<open>The two distances of the glossary.\<close>

definition manhattan :: "coord \<Rightarrow> coord \<Rightarrow> int" where
  "manhattan p q = \<bar>fst p - fst q\<bar> + \<bar>snd p - snd q\<bar>"

definition chebyshev :: "coord \<Rightarrow> coord \<Rightarrow> int" where
  "chebyshev p q = max \<bar>fst p - fst q\<bar> \<bar>snd p - snd q\<bar>"

text \<open>A block the search may step on: inside the grid and read as \<open>'#'\<close> or \<open>'|'\<close>.\<close>

definition passable :: "city_grid \<Rightarrow> coord \<Rightarrow> bool" where
  "passable g p \<longleftrightarrow>
     in_bounds g p \<and>
     (get_cell g (fst p) (snd p) = Inr Covered \<or> get_cell g (fst p) (snd p) = Inr Station)"

text \<open>
  The coordinates an element of \<open>open_list\<close> stands for, from the start to its block, and
  what holds of them: they begin at the start, every later one is passable, and each is
  within Chebyshev distance 1 of the one before.
\<close>

definition track :: "entry \<Rightarrow> coord list" where
  "track e = snd (snd e) @ [fst (snd e)]"

definition track_ok :: "city_grid \<Rightarrow> coord \<Rightarrow> coord list \<Rightarrow> bool" where
  "track_ok g start t \<longleftrightarrow>
     t \<noteq> [] \<and> hd t = start \<and> list_all (passable g) (tl t) \<and>
     successively (\<lambda>p q. chebyshev p q \<le> 1) t"

text \<open>
  The key of an element reached after \<open>length path\<close> edges is that number plus the
  Manhattan distance to the end; the first element \<open>(0, start, [])\<close> has the key 0.
\<close>

definition key_ok :: "coord \<Rightarrow> coord \<Rightarrow> entry \<Rightarrow> bool" where
  "key_ok start end_t e \<longleftrightarrow>
     fst e = int (length (snd (snd e))) + manhattan (fst (snd e)) end_t \<or> e = (0, start, [])"

definition entry_ok :: "city_grid \<Rightarrow> coord \<Rightarrow> coord \<Rightarrow> entry \<Rightarrow> bool" where
  "entry_ok g start end_t e \<longleftrightarrow> track_ok g start (track e) \<and> key_ok start end_t e"

text \<open>
  The score of a position: the number of blocks holding \<open>0\<close> in its window. A candidate
  is a block that holds \<open>'#'\<close> or \<open>0\<close>.
\<close>

definition uncovered_in :: "city_grid \<Rightarrow> coord list \<Rightarrow> coord list" where
  "uncovered_in g cs = filter (\<lambda>p. cell_at g p = Empty) cs"

definition score :: "city_grid \<Rightarrow> coord \<Rightarrow> int" where
  "score g p = int (length (uncovered_in g (window g (fst p) (snd p) (tower_radius g))))"

definition candidate :: "city_grid \<Rightarrow> coord \<Rightarrow> bool" where
  "candidate g p \<longleftrightarrow> cell_at g p = Covered \<or> cell_at g p = Empty"

text \<open>
  How placement may change a block: not at all, or from \<open>0\<close> or \<open>'#'\<close> to \<open>'#'\<close> or
  \<open>'|'\<close>.
\<close>

definition advanced :: "cell \<Rightarrow> cell \<Rightarrow> bool" where
  "advanced a b \<longleftrightarrow>
     b = a \<or> ((a = Empty \<or> a = Covered) \<and> (b = Covered \<or> b = Station))"

subsection \<open>Concrete objects\<close>

text \<open>
  A street of four blocks with radius 1, as \<open>place_optimal_towers\<close> leaves it when it
  starts from four blocks holding \<open>0\<close>: towers on the two middle blocks.
\<close>

definition street_grid :: city_grid where
  "street_grid =
     \<lparr>n = 1, m = 4, tower_radius = 1,
      grid = [[Covered, Station, Station, Covered]], towers = [(0, 1), (0, 2)]\<rparr>"

text \<open>Two blocks, the first obstructed, before any tower is placed.\<close>

definition blocked_grid :: city_grid where
  "blocked_grid =
     \<lparr>n = 1, m = 2, tower_radius = 1, grid = [[Obstructed, Empty]], towers = []\<rparr>"

text \<open>
  A street of six blocks with radius 1, the last block obstructed, as
  \<open>place_optimal_towers\<close> leaves it: towers on the second and the fourth block.
\<close>

definition avenue_grid :: city_grid where
  "avenue_grid =
     \<lparr>n = 1, m = 6, tower_radius = 1,
      grid = [[Covered, Station, Covered, Station, Covered, Obstructed]],
      towers = [(0, 1), (0, 3)]\<rparr>"

text \<open>Four blocks holding \<open>0\<close>, radius 1: the constructor's grid with no obstruction.\<close>

definition empty_street :: city_grid where
  "empty_street =
     \<lparr>n = 1, m = 4, tower_radius = 1, grid = [[Empty, Empty, Empty, Empty]], towers = []\<rparr>"

text \<open>Two blocks, both obstructed.\<close>

definition walled_grid :: city_grid where
  "walled_grid =
     \<lparr>n = 1, m = 2, tower_radius = 1, grid = [[Obstructed, Obstructed]], towers = []\<rparr>"

section \<open>Properties of reading and writing inside the grid\<close>

lemma py_norm_in_range: "0 \<le> i \<Longrightarrow> i < int len \<Longrightarrow> py_norm len i = Inr (nat i)"
  by (simp add: py_norm_def)

lemma wf_grid_row_length:
  "wf_grid g \<Longrightarrow> 0 \<le> i \<Longrightarrow> i < n g \<Longrightarrow> length (grid g ! nat i) = nat (m g)"
  by (simp add: wf_grid_def list_all_length)

lemma get_cell_in_bounds:
  assumes "wf_grid g" "in_bounds g (i, j)"
  shows "get_cell g i j = Inr (cell_at g (i, j))"
proof -
  from assms have i: "0 \<le> i" "i < int (length (grid g))" and j: "0 \<le> j" "j < m g"
    and "i < n g"
    by (simp_all add: wf_grid_def in_bounds_def)
  then have "j < int (length (grid g ! nat i))"
    using wf_grid_row_length [OF assms(1), of i] by simp
  then show ?thesis
    using i j by (simp add: get_cell_def py_index_def py_norm_in_range cell_at_def)
qed

lemma set_cell_in_bounds:
  assumes "wf_grid g" "in_bounds g (i, j)"
  shows "set_cell g i j v = Inr (upd g (i, j) v)"
proof -
  from assms have i: "0 \<le> i" "i < int (length (grid g))" and j: "0 \<le> j" "j < m g"
    and "i < n g"
    by (simp_all add: wf_grid_def in_bounds_def)
  then have "j < int (length (grid g ! nat i))"
    using wf_grid_row_length [OF assms(1), of i] by simp
  then show ?thesis
    using i j by (simp add: set_cell_def py_norm_in_range upd_def)
qed

lemma upd_fields [simp]:
  "n (upd g p v) = n g" "m (upd g p v) = m g" "tower_radius (upd g p v) = tower_radius g"
  "towers (upd g p v) = towers g"
  by (simp_all add: upd_def)

lemma in_bounds_upd [simp]: "in_bounds (upd g p v) q = in_bounds g q"
  by (simp add: in_bounds_def)

lemma wf_grid_upd [simp]: "wf_grid g \<Longrightarrow> wf_grid (upd g p v)"
proof (cases "nat (fst p) < length (grid g)")
  case True
  assume "wf_grid g"
  with True show ?thesis
    unfolding wf_grid_def upd_def by (auto simp: list_all_length nth_list_update)
next
  case False
  assume "wf_grid g"
  with False show ?thesis
    unfolding wf_grid_def upd_def by (simp add: list_update_beyond)
qed

lemma cell_at_upd:
  assumes "wf_grid g" "in_bounds g p" "in_bounds g q"
  shows "cell_at (upd g p v) q = (if q = p then v else cell_at g q)"
proof -
  obtain a b c d where p: "p = (a, b)" and q: "q = (c, d)"
    by (cases p, cases q) auto
  from assms p q have a: "0 \<le> a" "nat a < length (grid g)" and b: "0 \<le> b" "b < m g"
    and c: "0 \<le> c" "nat c < length (grid g)" and d: "0 \<le> d" "d < m g" and "a < n g"
    by (simp_all add: wf_grid_def in_bounds_def)
  have len: "nat b < length (grid g ! nat a)"
    using wf_grid_row_length [OF assms(1), of a] a b \<open>a < n g\<close> by simp
  show ?thesis
    using a b c d len unfolding p q cell_at_def upd_def
    by (auto simp: nth_list_update)
qed

lemma towers_upd_record [simp]:
  "upd (g\<lparr>towers := ts\<rparr>) p v = (upd g p v)\<lparr>towers := ts\<rparr>"
  by (simp add: upd_def)

section \<open>Properties of the path search\<close>

lemma find_path_step_returns_self:
  "find_path_step g end_t open_list closed_list = Inl r \<Longrightarrow> snd r = g"
  unfolding find_path_step_def Let_def
  by (auto split: prod.splits if_splits sum.splits)

lemma find_path_step_keeps_self:
  "find_path_step g end_t open_list closed_list = Inr (g', open2, closed2) \<Longrightarrow> g' = g"
  unfolding find_path_step_def Let_def
  by (auto split: prod.splits if_splits sum.splits)

lemma find_path_loop_self: "snd (find_path_loop g end_t open_list closed_list) = g"
proof (induction g end_t open_list closed_list rule: find_path_loop.induct)
  case (1 g end_t open_list closed_list)
  show ?case
  proof (cases "open_list = []")
    case True
    then show ?thesis by (subst find_path_loop.simps) simp
  next
    case False
    show ?thesis
    proof (cases "find_path_step g end_t open_list closed_list")
      case (Inl r)
      with False find_path_step_returns_self [OF Inl] show ?thesis
        by (subst find_path_loop.simps) simp
    next
      case (Inr t)
      obtain g' open2 closed2 where t: "t = (g', open2, closed2)" by (cases t) auto
      have "g' = g" using Inr t find_path_step_keeps_self by blast
      moreover have "snd (find_path_loop g' end_t open2 closed2) = g'"
        using "1.IH" [OF False Inr] t by simp
      ultimately show ?thesis using False Inr t
        by (subst find_path_loop.simps) simp
    qed
  qed
qed

text \<open>
  C9. \<open>find_path\<close> is read-only: whatever it returns (a path, \<open>None\<close> or an exception),
  the object after the call is the object before it; the rows of blocks, \<open>n\<close>, \<open>m\<close>, the
  radius and the list of towers are unchanged. The search loop is a total function, so
  the call always returns.
\<close>

theorem find_path_read_only:
  "snd (find_path g start end_t) = g \<and>
   grid (snd (find_path g start end_t)) = grid g \<and>
   n (snd (find_path g start end_t)) = n g \<and>
   m (snd (find_path g start end_t)) = m g \<and>
   tower_radius (snd (find_path g start end_t)) = tower_radius g \<and>
   towers (snd (find_path g start end_t)) = towers g"
  by (simp add: find_path_def find_path_loop_self)

text \<open>
  C8. For every grid and every coordinate \<open>s\<close>, \<open>find_path(s, s)\<close> returns the
  one-element path \<open>[s]\<close>.
\<close>

theorem find_path_same_start_end:
  "fst (find_path g s s) = Inr (Some [s])"
proof -
  obtain x y where s: "s = (x, y)" by (cases s) auto
  have "find_path_step g s [(0, s, [])] {} = Inl (Inr (Some [s]), g)"
    unfolding find_path_step_def s by simp
  then show ?thesis
    unfolding find_path_def by (subst find_path_loop.simps) simp
qed

section \<open>Properties of path marking\<close>

lemma same_frame_refl: "wf_grid g \<Longrightarrow> same_frame g g"
  by (simp add: same_frame_def)

lemma same_frame_upd: "wf_grid g \<Longrightarrow> same_frame g (upd g p v)"
  by (simp add: same_frame_def)

lemma same_frame_trans: "same_frame g g1 \<Longrightarrow> same_frame g1 g2 \<Longrightarrow> same_frame g g2"
  by (simp add: same_frame_def)

lemma same_frame_in_bounds: "same_frame g g' \<Longrightarrow> in_bounds g' q = in_bounds g q"
  by (simp add: same_frame_def in_bounds_def)

lemma mark_path_in_bounds:
  "wf_grid g \<Longrightarrow> list_all (in_bounds g) cs \<Longrightarrow>
   \<exists>g'. mark_path g cs = Inr g' \<and> same_frame g g' \<and>
     (\<forall>q. in_bounds g q \<longrightarrow> cell_at g' q = (if q \<in> set cs then PathMark else cell_at g q))"
proof (induction cs arbitrary: g)
  case Nil
  then show ?case by (simp add: same_frame_refl)
next
  case (Cons cord cs)
  let ?g1 = "upd g cord PathMark"
  have c: "in_bounds g cord" and cs: "list_all (in_bounds g) cs"
    using Cons.prems(2) by simp_all
  have step: "set_cell g (fst cord) (snd cord) PathMark = Inr ?g1"
    using set_cell_in_bounds [OF Cons.prems(1), of "fst cord" "snd cord" PathMark] c by simp
  have wf1: "wf_grid ?g1" using Cons.prems(1) by simp
  have cs1: "list_all (in_bounds ?g1) cs" using cs by (simp add: list_all_iff)
  from Cons.IH [OF wf1 cs1] obtain g' where
    g': "mark_path ?g1 cs = Inr g'" "same_frame ?g1 g'"
      "\<forall>q. in_bounds ?g1 q \<longrightarrow> cell_at g' q = (if q \<in> set cs then PathMark else cell_at ?g1 q)"
    by blast
  have "same_frame g g'"
    using same_frame_trans [OF same_frame_upd [OF Cons.prems(1)] g'(2)] .
  moreover have "\<forall>q. in_bounds g q \<longrightarrow>
      cell_at g' q = (if q \<in> set (cord # cs) then PathMark else cell_at g q)"
    using g'(3) cell_at_upd [OF Cons.prems(1) c] by auto
  ultimately show ?case using step g'(1) by simp
qed

lemma set_inner_subset: "set (butlast (tl xs)) \<subseteq> set xs"
  by (cases xs) (auto dest: in_set_butlastD)

lemma py_index_first: "xs \<noteq> [] \<Longrightarrow> py_index xs 0 = Inr (hd xs)"
  by (cases xs) (simp_all add: py_index_def py_norm_def)

lemma py_index_last: "xs \<noteq> [] \<Longrightarrow> py_index xs (- 1) = Inr (last xs)"
  by (cases xs) (auto simp: py_index_def py_norm_def Let_def last_conv_nth)

lemma py_index_empty: "py_index [] i = Inl IndexError"
  by (simp add: py_index_def py_norm_def Let_def)

lemma build_path_on_grid_result:
  assumes wf: "wf_grid g" and ne: "ttt_path \<noteq> []" and inb: "list_all (in_bounds g) ttt_path"
  shows "\<exists>g'. build_path_on_grid g ttt_path = Inr g' \<and> same_frame g g' \<and>
     (\<forall>q. in_bounds g q \<longrightarrow>
        cell_at g' q =
          (if q = last ttt_path then EndMark
           else if q = hd ttt_path then BeginMark
           else if q \<in> set (butlast (tl ttt_path)) then PathMark
           else cell_at g q))"
proof -
  have inner: "list_all (in_bounds g) (butlast (tl ttt_path))"
    using inb set_inner_subset [of ttt_path] by (auto simp: list_all_iff)
  from mark_path_in_bounds [OF wf inner] obtain g1 where
    g1: "mark_path g (butlast (tl ttt_path)) = Inr g1" "same_frame g g1"
      "\<forall>q. in_bounds g q \<longrightarrow>
         cell_at g1 q = (if q \<in> set (butlast (tl ttt_path)) then PathMark else cell_at g q)"
    by blast
  have wf1: "wf_grid g1" using g1(2) by (simp add: same_frame_def)
  have b1: "\<And>q. in_bounds g1 q = in_bounds g q" using same_frame_in_bounds [OF g1(2)] .
  have hd_in: "in_bounds g (hd ttt_path)" and last_in: "in_bounds g (last ttt_path)"
    using inb ne by (simp_all add: list_all_iff)
  let ?g2 = "upd g1 (hd ttt_path) BeginMark"
  let ?g3 = "upd ?g2 (last ttt_path) EndMark"
  have s2: "set_cell g1 (fst (hd ttt_path)) (snd (hd ttt_path)) BeginMark = Inr ?g2"
    using set_cell_in_bounds [OF wf1, of "fst (hd ttt_path)" "snd (hd ttt_path)"] hd_in b1 by simp
  have wf2: "wf_grid ?g2" using wf1 by simp
  have s3: "set_cell ?g2 (fst (last ttt_path)) (snd (last ttt_path)) EndMark = Inr ?g3"
    using set_cell_in_bounds [OF wf2, of "fst (last ttt_path)" "snd (last ttt_path)"] last_in b1
    by simp
  have res: "build_path_on_grid g ttt_path = Inr ?g3"
    by (simp add: build_path_on_grid_def g1(1) py_index_first [OF ne] py_index_last [OF ne] s2 s3)
  have frame: "same_frame g ?g3"
    using same_frame_trans [OF g1(2)] same_frame_trans [OF same_frame_upd [OF wf1] same_frame_upd [OF wf2]]
    by blast
  have cells: "\<forall>q. in_bounds g q \<longrightarrow>
        cell_at ?g3 q =
          (if q = last ttt_path then EndMark
           else if q = hd ttt_path then BeginMark
           else if q \<in> set (butlast (tl ttt_path)) then PathMark
           else cell_at g q)"
  proof (intro allI impI)
    fix q assume q: "in_bounds g q"
    have "cell_at ?g3 q = (if q = last ttt_path then EndMark else cell_at ?g2 q)"
      using cell_at_upd [OF wf2, of "last ttt_path" q EndMark] last_in q b1 by simp
    moreover have "cell_at ?g2 q = (if q = hd ttt_path then BeginMark else cell_at g1 q)"
      using cell_at_upd [OF wf1, of "hd ttt_path" q BeginMark] hd_in q b1 by simp
    moreover have "cell_at g1 q = (if q \<in> set (butlast (tl ttt_path)) then PathMark else cell_at g q)"
      using g1(3) q by blast
    ultimately show "cell_at ?g3 q =
          (if q = last ttt_path then EndMark
           else if q = hd ttt_path then BeginMark
           else if q \<in> set (butlast (tl ttt_path)) then PathMark
           else cell_at g q)"
      by simp
  qed
  show ?thesis using res frame cells by blast
qed

lemma build_path_on_grid_empty: "build_path_on_grid g [] = Inl IndexError"
  by (simp add: build_path_on_grid_def py_index_empty)

text \<open>
  C10. \<open>build_path_on_grid\<close> needs a non-empty path. On a well-formed grid and a non-empty
  path whose coordinates are all inside the grid no index is out of range: the call
  returns an object. There the last coordinate holds the end marker, the first one the
  begin marker unless it is also the last, and every inner coordinate other than these
  two the path marker; so a one-element path ends as the end marker. With the empty path
  the call raises \<open>IndexError\<close>.
\<close>

theorem build_path_on_grid_index_safety:
  "(wf_grid g \<and> ttt_path \<noteq> [] \<and> list_all (in_bounds g) ttt_path \<longrightarrow>
      (\<exists>g'. build_path_on_grid g ttt_path = Inr g' \<and>
            cell_at g' (last ttt_path) = EndMark \<and>
            (hd ttt_path \<noteq> last ttt_path \<longrightarrow> cell_at g' (hd ttt_path) = BeginMark) \<and>
            (\<forall>q \<in> set (butlast (tl ttt_path)).
               q \<noteq> hd ttt_path \<and> q \<noteq> last ttt_path \<longrightarrow> cell_at g' q = PathMark))) \<and>
   (wf_grid g \<and> in_bounds g p \<longrightarrow>
      (\<exists>g'. build_path_on_grid g [p] = Inr g' \<and> cell_at g' p = EndMark)) \<and>
   build_path_on_grid g [] = Inl IndexError"
proof (intro conjI impI)
  assume a: "wf_grid g \<and> ttt_path \<noteq> [] \<and> list_all (in_bounds g) ttt_path"
  then have inb: "\<And>q. q \<in> set ttt_path \<Longrightarrow> in_bounds g q"
    by (simp add: list_all_iff)
  from a build_path_on_grid_result [of g ttt_path] obtain g' where
    g': "build_path_on_grid g ttt_path = Inr g'"
      "\<forall>q. in_bounds g q \<longrightarrow>
        cell_at g' q =
          (if q = last ttt_path then EndMark
           else if q = hd ttt_path then BeginMark
           else if q \<in> set (butlast (tl ttt_path)) then PathMark
           else cell_at g q)"
    by blast
  have cells: "\<And>q. in_bounds g q \<Longrightarrow> cell_at g' q =
          (if q = last ttt_path then EndMark
           else if q = hd ttt_path then BeginMark
           else if q \<in> set (butlast (tl ttt_path)) then PathMark
           else cell_at g q)"
    using g'(2) by blast
  have "cell_at g' (last ttt_path) = EndMark"
    using cells [OF inb [of "last ttt_path"]] a by simp
  moreover have "hd ttt_path \<noteq> last ttt_path \<longrightarrow> cell_at g' (hd ttt_path) = BeginMark"
    using cells [OF inb [of "hd ttt_path"]] a by simp
  moreover have "\<forall>q \<in> set (butlast (tl ttt_path)).
               q \<noteq> hd ttt_path \<and> q \<noteq> last ttt_path \<longrightarrow> cell_at g' q = PathMark"
  proof (intro ballI impI)
    fix q assume q: "q \<in> set (butlast (tl ttt_path))" "q \<noteq> hd ttt_path \<and> q \<noteq> last ttt_path"
    then have "in_bounds g q" using inb set_inner_subset [of ttt_path] by blast
    from cells [OF this] q show "cell_at g' q = PathMark" by simp
  qed
  ultimately show "\<exists>g'. build_path_on_grid g ttt_path = Inr g' \<and>
            cell_at g' (last ttt_path) = EndMark \<and>
            (hd ttt_path \<noteq> last ttt_path \<longrightarrow> cell_at g' (hd ttt_path) = BeginMark) \<and>
            (\<forall>q \<in> set (butlast (tl ttt_path)).
               q \<noteq> hd ttt_path \<and> q \<noteq> last ttt_path \<longrightarrow> cell_at g' q = PathMark)"
    using g'(1) by blast
next
  assume a: "wf_grid g \<and> in_bounds g p"
  then obtain g' where g': "build_path_on_grid g [p] = Inr g'"
      "\<forall>q. in_bounds g q \<longrightarrow>
        cell_at g' q =
          (if q = last [p] then EndMark
           else if q = hd [p] then BeginMark
           else if q \<in> set (butlast (tl [p])) then PathMark
           else cell_at g q)"
    using build_path_on_grid_result [of g "[p]"] by auto
  from g'(2) a have "cell_at g' p = EndMark" by (metis last.simps)
  with g'(1) show "\<exists>g'. build_path_on_grid g [p] = Inr g' \<and> cell_at g' p = EndMark"
    by blast
next
  show "build_path_on_grid g [] = Inl IndexError"
    by (rule build_path_on_grid_empty)
qed

theorem build_path_on_grid_index_safety_witness:
  "wf_grid street_grid \<and> list_all (in_bounds street_grid) [(0, 1), (0, 2)] \<and>
   (\<exists>g'. build_path_on_grid street_grid [(0, 1), (0, 2)] = Inr g' \<and>
      cell_at g' (0, 2) = EndMark \<and> cell_at g' (0, 1) = BeginMark) \<and>
   (\<exists>g'. build_path_on_grid street_grid [(0, 3)] = Inr g' \<and> cell_at g' (0, 3) = EndMark) \<and>
   build_path_on_grid street_grid [] = Inl IndexError"
proof -
  have wf: "wf_grid street_grid"
    by (simp add: street_grid_def wf_grid_def)
  have inb: "list_all (in_bounds street_grid) [(0, 1), (0, 2)]" "in_bounds street_grid (0, 3)"
    by (simp_all add: street_grid_def in_bounds_def)
  show ?thesis
    using build_path_on_grid_index_safety [of street_grid "[(0, 1), (0, 2)]" "(0, 3)"] wf inb
    by simp
qed

section \<open>Properties of tower placement\<close>

lemma window_in_bounds: "list_all (in_bounds g) (window g x y r)"
  by (auto simp: window_def list_all_iff set_cells_between in_bounds_def)

lemma all_cells_in_bounds: "set (cells_between 0 (n g) 0 (m g)) = {p. in_bounds g p}"
  by (auto simp: set_cells_between in_bounds_def)

lemma centre_in_window:
  "in_bounds g (x, y) \<Longrightarrow> 0 \<le> r \<Longrightarrow> (x, y) \<in> set (window g x y r)"
  by (auto simp: window_def set_cells_between in_bounds_def)

lemma mark_covered_in_bounds:
  "wf_grid g \<Longrightarrow> list_all (in_bounds g) cs \<Longrightarrow>
   \<exists>g'. mark_covered g cs = Inr g' \<and> same_frame g g' \<and>
     (\<forall>q. in_bounds g q \<longrightarrow>
        cell_at g' q = (if q \<in> set cs \<and> cell_at g q = Empty then Covered else cell_at g q))"
proof (induction cs arbitrary: g)
  case Nil
  then show ?case by (simp add: same_frame_refl)
next
  case (Cons c cs)
  obtain i j where c: "c = (i, j)" by (cases c) auto
  have inb: "in_bounds g (i, j)" and cs: "list_all (in_bounds g) cs"
    using Cons.prems(2) c by simp_all
  have rd: "get_cell g i j = Inr (cell_at g (i, j))"
    using get_cell_in_bounds [OF Cons.prems(1) inb] .
  show ?case
  proof (cases "cell_at g (i, j) = Empty")
    case False
    from Cons.IH [OF Cons.prems(1) cs] obtain g' where
      g': "mark_covered g cs = Inr g'" "same_frame g g'"
        "\<forall>q. in_bounds g q \<longrightarrow>
           cell_at g' q = (if q \<in> set cs \<and> cell_at g q = Empty then Covered else cell_at g q)"
      by blast
    have "\<forall>q. in_bounds g q \<longrightarrow>
        cell_at g' q = (if q \<in> set (c # cs) \<and> cell_at g q = Empty then Covered else cell_at g q)"
    proof (intro allI impI)
      fix q assume q: "in_bounds g q"
      have "cell_at g' q = (if q \<in> set cs \<and> cell_at g q = Empty then Covered else cell_at g q)"
        using g'(3) q by blast
      then show "cell_at g' q = (if q \<in> set (c # cs) \<and> cell_at g q = Empty then Covered else cell_at g q)"
        using False c by auto
    qed
    then show ?thesis using g'(1,2) rd False c by simp
  next
    case True
    let ?g1 = "upd g (i, j) Covered"
    have wr: "set_cell g i j Covered = Inr ?g1"
      using set_cell_in_bounds [OF Cons.prems(1) inb] .
    have wf1: "wf_grid ?g1" using Cons.prems(1) by simp
    have cs1: "list_all (in_bounds ?g1) cs" using cs by (simp add: list_all_iff)
    from Cons.IH [OF wf1 cs1] obtain g' where
      g': "mark_covered ?g1 cs = Inr g'" "same_frame ?g1 g'"
        "\<forall>q. in_bounds ?g1 q \<longrightarrow>
           cell_at g' q = (if q \<in> set cs \<and> cell_at ?g1 q = Empty then Covered else cell_at ?g1 q)"
      by blast
    have fr: "same_frame g g'"
      using same_frame_trans [OF same_frame_upd [OF Cons.prems(1)] g'(2)] .
    have "\<forall>q. in_bounds g q \<longrightarrow>
        cell_at g' q = (if q \<in> set (c # cs) \<and> cell_at g q = Empty then Covered else cell_at g q)"
    proof (intro allI impI)
      fix q assume q: "in_bounds g q"
      have a: "cell_at g' q = (if q \<in> set cs \<and> cell_at ?g1 q = Empty then Covered else cell_at ?g1 q)"
        using g'(3) q in_bounds_upd [of g "(i, j)" Covered q] by blast
      have b: "cell_at ?g1 q = (if q = (i, j) then Covered else cell_at g q)"
        using cell_at_upd [OF Cons.prems(1) inb q] .
      show "cell_at g' q = (if q \<in> set (c # cs) \<and> cell_at g q = Empty then Covered else cell_at g q)"
        unfolding a b using True c by auto
    qed
    then show ?thesis using g'(1) fr rd wr True c by simp
  qed
qed

text \<open>On a block that holds a tower or an obstruction, \<open>place_tower\<close> changes nothing.\<close>

lemma place_tower_occupied:
  "get_cell g x y = Inr Obstructed \<or> get_cell g x y = Inr Station \<Longrightarrow>
   place_tower g x y r = Inr g"
  by (auto simp: place_tower_def)

text \<open>On any other block inside the grid it puts the tower and covers the window.\<close>

lemma place_tower_free:
  assumes wf: "wf_grid g" and inb: "in_bounds g (x, y)"
    and free: "cell_at g (x, y) \<noteq> Station" "cell_at g (x, y) \<noteq> Obstructed"
  shows "\<exists>g'. place_tower g x y r = Inr g' \<and> wf_grid g' \<and> n g' = n g \<and> m g' = m g \<and>
     tower_radius g' = tower_radius g \<and> towers g' = towers g @ [(x, y)] \<and>
     (\<forall>q. in_bounds g q \<longrightarrow>
        cell_at g' q =
          (if q = (x, y) then Station
           else if q \<in> set (window g x y r) \<and> cell_at g q = Empty then Covered
           else cell_at g q))"
proof -
  let ?g1 = "upd g (x, y) Station"
  let ?g2 = "?g1\<lparr>towers := towers ?g1 @ [(x, y)]\<rparr>"
  have rd: "get_cell g x y = Inr (cell_at g (x, y))"
    using get_cell_in_bounds [OF wf inb] .
  have wr: "set_cell g x y Station = Inr ?g1"
    using set_cell_in_bounds [OF wf inb] .
  have wf2: "wf_grid ?g2" using wf_grid_upd [OF wf, of "(x, y)" Station]
    by (simp add: wf_grid_def)
  have b2: "\<And>q. in_bounds ?g2 q = in_bounds g q" by (simp add: in_bounds_def)
  have c2: "\<And>q. cell_at ?g2 q = cell_at ?g1 q" by (simp add: cell_at_def)
  have win: "window ?g2 x y r = window g x y r" by (simp add: window_def)
  have "list_all (in_bounds ?g2) (window ?g2 x y r)" by (rule window_in_bounds)
  from mark_covered_in_bounds [OF wf2 this] obtain g' where
    g': "mark_covered ?g2 (window g x y r) = Inr g'" "same_frame ?g2 g'"
      "\<forall>q. in_bounds ?g2 q \<longrightarrow>
         cell_at g' q = (if q \<in> set (window g x y r) \<and> cell_at ?g2 q = Empty then Covered
                         else cell_at ?g2 q)"
    unfolding win by blast
  have res: "place_tower g x y r = Inr g'"
    using rd wr free g'(1) by (simp add: place_tower_def window_def)
  have fields: "wf_grid g' \<and> n g' = n g \<and> m g' = m g \<and>
     tower_radius g' = tower_radius g \<and> towers g' = towers g @ [(x, y)]"
    using g'(2) by (simp add: same_frame_def)
  have cells: "\<forall>q. in_bounds g q \<longrightarrow>
        cell_at g' q =
          (if q = (x, y) then Station
           else if q \<in> set (window g x y r) \<and> cell_at g q = Empty then Covered
           else cell_at g q)"
  proof (intro allI impI)
    fix q assume q: "in_bounds g q"
    have a: "cell_at g' q = (if q \<in> set (window g x y r) \<and> cell_at ?g2 q = Empty then Covered
                         else cell_at ?g2 q)"
      using g'(3) q b2 by blast
    have b: "cell_at ?g2 q = (if q = (x, y) then Station else cell_at g q)"
      unfolding c2 using cell_at_upd [OF wf inb q] .
    show "cell_at g' q =
          (if q = (x, y) then Station
           else if q \<in> set (window g x y r) \<and> cell_at g q = Empty then Covered
           else cell_at g q)"
      unfolding a b by simp
  qed
  show ?thesis using res fields cells by blast
qed

text \<open>
  C4, as the code has it. Placing a tower on a block that holds an obstruction or a tower
  raises no error: \<open>place_tower\<close> returns normally and the object is exactly as before
  (the method only prints a message). No call of \<open>place_tower\<close> inside a well-formed grid
  changes a block that holds an obstruction or a tower; a block holding anything else
  becomes the tower and its coordinate is appended to the list of towers.
\<close>

theorem place_tower_occupied_unchanged:
  "(get_cell g x y = Inr Obstructed \<or> get_cell g x y = Inr Station \<longrightarrow>
      place_tower g x y r = Inr g) \<and>
   (wf_grid g \<and> in_bounds g (x, y) \<longrightarrow>
      (\<exists>g'. place_tower g x y r = Inr g' \<and>
         (\<forall>q. in_bounds g q \<and> (cell_at g q = Obstructed \<or> cell_at g q = Station) \<longrightarrow>
              cell_at g' q = cell_at g q) \<and>
         (cell_at g (x, y) \<noteq> Obstructed \<and> cell_at g (x, y) \<noteq> Station \<longrightarrow>
              cell_at g' (x, y) = Station \<and> towers g' = towers g @ [(x, y)])))"
proof (intro conjI impI)
  assume "get_cell g x y = Inr Obstructed \<or> get_cell g x y = Inr Station"
  then show "place_tower g x y r = Inr g" by (rule place_tower_occupied)
next
  assume a: "wf_grid g \<and> in_bounds g (x, y)"
  then have wf: "wf_grid g" and inb: "in_bounds g (x, y)" by simp_all
  show "\<exists>g'. place_tower g x y r = Inr g' \<and>
         (\<forall>q. in_bounds g q \<and> (cell_at g q = Obstructed \<or> cell_at g q = Station) \<longrightarrow>
              cell_at g' q = cell_at g q) \<and>
         (cell_at g (x, y) \<noteq> Obstructed \<and> cell_at g (x, y) \<noteq> Station \<longrightarrow>
              cell_at g' (x, y) = Station \<and> towers g' = towers g @ [(x, y)])"
  proof (cases "cell_at g (x, y) = Obstructed \<or> cell_at g (x, y) = Station")
    case True
    then have "place_tower g x y r = Inr g"
      using place_tower_occupied [of g x y r] get_cell_in_bounds [OF wf inb] by auto
    with True show ?thesis by auto
  next
    case False
    then have free: "cell_at g (x, y) \<noteq> Station" "cell_at g (x, y) \<noteq> Obstructed" by simp_all
    from place_tower_free [OF wf inb free, of r] obtain g' where
      g': "place_tower g x y r = Inr g'" "towers g' = towers g @ [(x, y)]"
      and cells: "\<And>q. in_bounds g q \<Longrightarrow>
        cell_at g' q =
          (if q = (x, y) then Station
           else if q \<in> set (window g x y r) \<and> cell_at g q = Empty then Covered
           else cell_at g q)"
      by blast
    have "\<forall>q. in_bounds g q \<and> (cell_at g q = Obstructed \<or> cell_at g q = Station) \<longrightarrow>
              cell_at g' q = cell_at g q"
    proof (intro allI impI)
      fix q assume q: "in_bounds g q \<and> (cell_at g q = Obstructed \<or> cell_at g q = Station)"
      then have "q \<noteq> (x, y)" "cell_at g q \<noteq> Empty" using free by auto
      then show "cell_at g' q = cell_at g q" using cells [of q] q by simp
    qed
    moreover have "cell_at g' (x, y) = Station" using cells [OF inb] by simp
    ultimately show ?thesis using g' by blast
  qed
qed

theorem place_tower_occupied_unchanged_witness:
  "get_cell blocked_grid 0 0 = Inr Obstructed \<and>
   place_tower blocked_grid 0 0 1 = Inr blocked_grid \<and>
   wf_grid blocked_grid \<and> in_bounds blocked_grid (0, 1) \<and>
   (\<exists>g'. place_tower blocked_grid 0 1 1 = Inr g' \<and>
      cell_at g' (0, 0) = Obstructed \<and> cell_at g' (0, 1) = Station \<and> towers g' = [(0, 1)])"
proof -
  have rd: "get_cell blocked_grid 0 0 = Inr Obstructed"
    by (simp add: blocked_grid_def get_cell_def py_index_def py_norm_def)
  have wf: "wf_grid blocked_grid"
    by (simp add: blocked_grid_def wf_grid_def)
  have inb: "in_bounds blocked_grid (0, 1)" "in_bounds blocked_grid (0, 0)"
    by (simp_all add: blocked_grid_def in_bounds_def)
  have cs: "cell_at blocked_grid (0, 0) = Obstructed" "cell_at blocked_grid (0, 1) = Empty"
    "towers blocked_grid = []"
    by (simp_all add: blocked_grid_def cell_at_def)
  have a: "place_tower blocked_grid 0 0 1 = Inr blocked_grid"
    using place_tower_occupied_unchanged [of blocked_grid 0 0 1] rd by simp
  obtain g' where g': "place_tower blocked_grid 0 1 1 = Inr g'"
    "\<forall>q. in_bounds blocked_grid q \<and>
        (cell_at blocked_grid q = Obstructed \<or> cell_at blocked_grid q = Station) \<longrightarrow>
        cell_at g' q = cell_at blocked_grid q"
    "cell_at g' (0, 1) = Station" "towers g' = [(0, 1)]"
    using place_tower_occupied_unchanged [of blocked_grid 0 1 1] wf inb(1) cs by auto
  have "cell_at g' (0, 0) = Obstructed"
    using g'(2) inb(2) cs(1) by metis
  then show ?thesis using rd a wf inb(1) g' by blast
qed

text \<open>
  The claim as stated fails: on an obstructed block and on a block with a tower,
  \<open>place_tower\<close> returns normally, with the object unchanged; no error is raised.
\<close>

theorem place_tower_occupied_counterexample:
  "get_cell blocked_grid 0 0 = Inr Obstructed \<and>
   place_tower blocked_grid 0 0 1 = Inr blocked_grid \<and>
   get_cell street_grid 0 1 = Inr Station \<and>
   place_tower street_grid 0 1 1 = Inr street_grid"
  by (simp add: blocked_grid_def street_grid_def place_tower_def get_cell_def py_index_def
      py_norm_def)

section \<open>What the search loop maintains\<close>

lemma entry_ok_initial: "entry_ok g start end_t (0, start, [])"
  by (simp add: entry_ok_def track_ok_def track_def key_ok_def)

lemma neighbours_close:
  assumes "c \<in> set (cells_between (max 0 (x - 1)) (min (n g) (x + 2))
                                   (max 0 (y - 1)) (min (m g) (y + 2)))"
  shows "in_bounds g c \<and> chebyshev (x, y) c \<le> 1"
  using assms by (auto simp: set_cells_between in_bounds_def chebyshev_def)

lemma track_ok_extend:
  assumes "track_ok g start (path @ [p])" "passable g q" "chebyshev p q \<le> 1"
  shows "track_ok g start ((path @ [p]) @ [q])"
proof -
  have "tl ((path @ [p]) @ [q]) = tl (path @ [p]) @ [q]" by (cases path) simp_all
  moreover have "hd ((path @ [p]) @ [q]) = hd (path @ [p])" by (cases path) simp_all
  moreover have "successively (\<lambda>p q. chebyshev p q \<le> 1) ((path @ [p]) @ [q])"
    using assms(1,3) unfolding track_ok_def
    by (subst successively_append_iff) simp
  ultimately show ?thesis using assms(1,2) by (simp add: track_ok_def)
qed

lemma expand_entry_ok:
  assumes "expand g end_t xy path cs open1 = Inr open2"
    and "track_ok g start (path @ [xy])"
    and "\<forall>e \<in> set open1. entry_ok g start end_t e"
    and "\<forall>c \<in> set cs. in_bounds g c \<and> chebyshev xy c \<le> 1"
  shows "\<forall>e \<in> set open2. entry_ok g start end_t e"
  using assms
proof (induction g end_t xy path cs open1 rule: expand.induct)
  case (1 g end_t x y path open_list)
  then show ?case by simp
next
  case (2 g end_t x y path i j cs open_list)
  have rest: "\<forall>c \<in> set cs. in_bounds g c \<and> chebyshev (x, y) c \<le> 1"
    and here: "in_bounds g (i, j)" "chebyshev (x, y) (i, j) \<le> 1"
    using "2.prems"(4) by simp_all
  show ?case
  proof (cases "i \<noteq> x \<or> j \<noteq> y")
    case False
    then have "expand g end_t (x, y) path cs open_list = Inr open2"
      using "2.prems"(1) by simp
    from "2.IH"(3) [OF False this "2.prems"(2,3) rest] show ?thesis .
  next
    case True
    then obtain c where c: "get_cell g i j = Inr c"
      using "2.prems"(1) by (cases "get_cell g i j") auto
    show ?thesis
    proof (cases "c = Covered \<or> c = Station")
      case False
      then have "expand g end_t (x, y) path cs open_list = Inr open2"
        using "2.prems"(1) True c by simp
      from "2.IH"(2) [OF True c False this "2.prems"(2,3) rest] show ?thesis .
    next
      case pass: True
      let ?e = "(int (length path) + 1 + \<bar>i - fst end_t\<bar> + \<bar>j - snd end_t\<bar>, (i, j), path @ [(x, y)])"
      have ex: "expand g end_t (x, y) path cs (open_list @ [?e]) = Inr open2"
        using "2.prems"(1) True c pass by simp
      have "passable g (i, j)"
        using here(1) c pass by (auto simp: passable_def)
      then have "track_ok g start (track ?e)"
        using track_ok_extend [OF "2.prems"(2) _ here(2)] by (simp add: track_def)
      moreover have "key_ok start end_t ?e"
        by (simp add: key_ok_def manhattan_def)
      ultimately have "\<forall>e \<in> set (open_list @ [?e]). entry_ok g start end_t e"
        using "2.prems"(3) by (simp add: entry_ok_def)
      from "2.IH"(1) [OF True c pass ex "2.prems"(2) this rest] show ?thesis .
    qed
  qed
qed

lemma find_path_step_return:
  assumes "min_list open_list = (f, (x, y), path)"
    and "find_path_step g end_t open_list closed_list = Inl (Inr (Some p), g')"
  shows "p = path @ [(x, y)] \<and> (x, y) = end_t"
  using assms unfolding find_path_step_def Let_def
  by (simp split: if_splits sum.splits)

lemma find_path_step_entry_ok:
  assumes ne: "open_list \<noteq> []"
    and ok: "\<forall>e \<in> set open_list. entry_ok g start end_t e"
    and st: "find_path_step g end_t open_list closed_list = Inr (g', open2, closed2)"
  shows "\<forall>e \<in> set open2. entry_ok g start end_t e"
proof -
  obtain f x y path where mn: "min_list open_list = (f, (x, y), path)"
    by (metis prod.exhaust)
  have mem: "(f, (x, y), path) \<in> set open_list"
    using min_list_in [OF ne] mn by simp
  have rest: "\<forall>e \<in> set (remove1 (f, (x, y), path) open_list). entry_ok g start end_t e"
    using ok set_remove1_subset [of "(f, (x, y), path)" open_list] by blast
  show ?thesis
  proof (cases "(x, y) \<in> closed_list")
    case True
    from find_path_step_closed [OF mn True st] rest show ?thesis by simp
  next
    case False
    let ?cs = "cells_between (max 0 (x - 1)) (min (n g) (x + 2)) (max 0 (y - 1)) (min (m g) (y + 2))"
    from find_path_step_fresh [OF mn False st]
    have ex: "expand g end_t (x, y) path ?cs (remove1 (f, (x, y), path) open_list) = Inr open2"
      by simp
    have tr: "track_ok g start (path @ [(x, y)])"
      using ok mem by (force simp: entry_ok_def track_def)
    have nb: "\<forall>c \<in> set ?cs. in_bounds g c \<and> chebyshev (x, y) c \<le> 1"
      using neighbours_close by blast
    from expand_entry_ok [OF ex tr rest nb] show ?thesis .
  qed
qed

lemma find_path_loop_track:
  "\<forall>e \<in> set open_list. entry_ok g start end_t e \<Longrightarrow>
   fst (find_path_loop g end_t open_list closed_list) = Inr (Some p) \<Longrightarrow>
   track_ok g start p \<and> last p = end_t"
proof (induction g end_t open_list closed_list rule: find_path_loop.induct)
  case (1 g end_t open_list closed_list)
  have ne: "open_list \<noteq> []"
    using "1.prems"(2) by (subst (asm) find_path_loop.simps) (auto split: if_splits)
  obtain f x y path where mn: "min_list open_list = (f, (x, y), path)"
    by (metis prod.exhaust)
  have mem: "(f, (x, y), path) \<in> set open_list"
    using min_list_in [OF ne] mn by simp
  show ?case
  proof (cases "find_path_step g end_t open_list closed_list")
    case (Inl r)
    then have "fst r = Inr (Some p)"
      using "1.prems"(2) ne by (subst (asm) find_path_loop.simps) simp
    then have "find_path_step g end_t open_list closed_list = Inl (Inr (Some p), snd r)"
      using Inl by (cases r) simp
    from find_path_step_return [OF mn this] have p: "p = path @ [(x, y)]" "(x, y) = end_t"
      by simp_all
    have "track_ok g start (path @ [(x, y)])"
      using "1.prems"(1) mem by (force simp: entry_ok_def track_def)
    then show ?thesis using p by simp
  next
    case (Inr t)
    obtain g' open2 closed2 where t: "t = (g', open2, closed2)" by (cases t) auto
    have g': "g' = g" using Inr t find_path_step_keeps_self by blast
    have st: "find_path_step g end_t open_list closed_list = Inr (g, open2, closed2)"
      using Inr t g' by simp
    have ok2: "\<forall>e \<in> set open2. entry_ok g start end_t e"
      using find_path_step_entry_ok [OF ne "1.prems"(1) st] .
    have "fst (find_path_loop g end_t open2 closed2) = Inr (Some p)"
      using "1.prems"(2) ne st by (subst (asm) find_path_loop.simps) simp
    from "1.IH" [OF ne st refl refl ok2 this] show ?thesis .
  qed
qed

lemma search_after_Suc:
  assumes "search_after g start end_t (Suc k) = Some (open2, closed2)"
  obtains open_list closed_list where
    "search_after g start end_t k = Some (open_list, closed_list)" "open_list \<noteq> []"
    "find_path_step g end_t open_list closed_list = Inr (g, open2, closed2)"
proof -
  from assms obtain open_list closed_list g' where
    a: "search_after g start end_t k = Some (open_list, closed_list)" "open_list \<noteq> []"
      "find_path_step g end_t open_list closed_list = Inr (g', open2, closed2)"
    by (auto split: option.splits if_splits sum.splits)
  moreover have "g' = g" using a(3) by (rule find_path_step_keeps_self)
  ultimately show ?thesis using that by blast
qed

lemma search_after_entry_ok:
  "search_after g start end_t k = Some (open_list, closed_list) \<Longrightarrow>
   \<forall>e \<in> set open_list. entry_ok g start end_t e"
proof (induction k arbitrary: open_list closed_list)
  case 0
  then show ?case by (auto simp: entry_ok_initial)
next
  case (Suc k)
  from Suc.prems obtain open0 closed0 where
    a: "search_after g start end_t k = Some (open0, closed0)" "open0 \<noteq> []"
      "find_path_step g end_t open0 closed0 = Inr (g, open_list, closed_list)"
    by (rule search_after_Suc)
  from find_path_step_entry_ok [OF a(2) Suc.IH [OF a(1)] a(3)] show ?case .
qed

lemma search_after_is_loop:
  "search_after g start end_t k = Some (open_list, closed_list) \<Longrightarrow>
   find_path g start end_t = find_path_loop g end_t open_list closed_list"
proof (induction k arbitrary: open_list closed_list)
  case 0
  then show ?case by (auto simp: find_path_def)
next
  case (Suc k)
  from Suc.prems obtain open0 closed0 where
    a: "search_after g start end_t k = Some (open0, closed0)" "open0 \<noteq> []"
      "find_path_step g end_t open0 closed0 = Inr (g, open_list, closed_list)"
    by (rule search_after_Suc)
  have "find_path_loop g end_t open0 closed0 = find_path_loop g end_t open_list closed_list"
    using a(2,3) by (subst find_path_loop.simps) simp
  with Suc.IH [OF a(1)] show ?case by simp
qed

lemma min_list_least: "x \<in> set xs \<Longrightarrow> min_list xs \<le> (x :: 'a :: linorder)"
proof -
  assume x: "x \<in> set xs"
  then have "xs \<noteq> []" by auto
  then have "min_list xs = Min (set xs)" by (rule min_list_Min)
  then show ?thesis using x by simp
qed

lemma min_list_least_key:
  fixes e :: entry
  assumes "e \<in> set open_list"
  shows "fst (min_list open_list) \<le> fst e"
  using min_list_least [OF assms] by (auto simp: less_eq_prod_def)

lemma find_path_step_explores_min:
  assumes "min_list open_list = (f, p, path)"
  shows "(p = end_t \<longrightarrow>
           find_path_step g end_t open_list closed_list = Inl (Inr (Some (path @ [p])), g)) \<and>
         (p \<noteq> end_t \<and> p \<in> closed_list \<longrightarrow>
           find_path_step g end_t open_list closed_list =
             Inr (g, remove1 (f, p, path) open_list, closed_list)) \<and>
         (p \<noteq> end_t \<and> p \<notin> closed_list \<longrightarrow>
           (\<forall>g' open2 closed2.
              find_path_step g end_t open_list closed_list = Inr (g', open2, closed2) \<longrightarrow>
              closed2 = insert p closed_list))"
proof -
  obtain x y where p: "p = (x, y)" by (cases p) auto
  have a: "p = end_t \<Longrightarrow>
      find_path_step g end_t open_list closed_list = Inl (Inr (Some (path @ [p])), g)"
    using assms unfolding p find_path_step_def Let_def by auto
  have b: "p \<noteq> end_t \<Longrightarrow> p \<in> closed_list \<Longrightarrow>
      find_path_step g end_t open_list closed_list =
        Inr (g, remove1 (f, p, path) open_list, closed_list)"
    using assms unfolding p find_path_step_def Let_def by auto
  have c: "\<And>g' open2 closed2. p \<notin> closed_list \<Longrightarrow>
      find_path_step g end_t open_list closed_list = Inr (g', open2, closed2) \<Longrightarrow>
      closed2 = insert p closed_list"
    using find_path_step_fresh [of open_list f x y path closed_list g end_t] assms
    unfolding p by blast
  show ?thesis using a b c by blast
qed

text \<open>
  C7, as the code has it. After any number of passes through the search loop, every
  element of \<open>open_list\<close> stands for a chain of coordinates from the start, and its key is
  the number of edges of that chain plus the Manhattan distance from its block to the
  end, except for the first element \<open>(0, start, [])\<close>, whose key is 0 whatever that
  distance is. The pass that follows takes the first least element of \<open>open_list\<close> in
  Python's tuple order; its key is the lowest key in \<open>open_list\<close>, and it is the element
  that is tested against the end, then skipped if its block is in \<open>closed_list\<close>, and
  otherwise put into \<open>closed_list\<close>. The states counted here are those of \<open>find_path\<close>.
\<close>

theorem find_path_priority_keys:
  "search_after g start end_t k = Some (open_list, closed_list) \<longrightarrow>
     find_path g start end_t = find_path_loop g end_t open_list closed_list \<and>
     (\<forall>e \<in> set open_list.
        track_ok g start (track e) \<and>
        (fst e = int (length (snd (snd e))) + manhattan (fst (snd e)) end_t \<or>
         e = (0, start, []))) \<and>
     (open_list \<noteq> [] \<longrightarrow>
        (\<exists>f p path.
           min_list open_list = (f, p, path) \<and> (f, p, path) \<in> set open_list \<and>
           (\<forall>e \<in> set open_list. f \<le> fst e) \<and>
           (p = end_t \<longrightarrow>
              find_path_step g end_t open_list closed_list =
                Inl (Inr (Some (path @ [p])), g)) \<and>
           (p \<noteq> end_t \<and> p \<in> closed_list \<longrightarrow>
              find_path_step g end_t open_list closed_list =
                Inr (g, remove1 (f, p, path) open_list, closed_list)) \<and>
           (p \<noteq> end_t \<and> p \<notin> closed_list \<longrightarrow>
              (\<forall>g' open2 closed2.
                 find_path_step g end_t open_list closed_list = Inr (g', open2, closed2) \<longrightarrow>
                 closed2 = insert p closed_list))))"
proof (intro impI conjI)
  assume a: "search_after g start end_t k = Some (open_list, closed_list)"
  show "find_path g start end_t = find_path_loop g end_t open_list closed_list"
    using a by (rule search_after_is_loop)
  show "\<forall>e \<in> set open_list.
        track_ok g start (track e) \<and>
        (fst e = int (length (snd (snd e))) + manhattan (fst (snd e)) end_t \<or>
         e = (0, start, []))"
    using search_after_entry_ok [OF a] by (simp add: entry_ok_def key_ok_def)
next
  assume ne: "open_list \<noteq> []"
  obtain f p path where mn: "min_list open_list = (f, p, path)"
    by (metis prod.exhaust)
  have mem: "(f, p, path) \<in> set open_list"
    using min_list_in [OF ne] mn by simp
  have low: "\<forall>e \<in> set open_list. f \<le> fst e"
    using min_list_least_key [of _ open_list] mn by simp
  show "\<exists>f p path.
           min_list open_list = (f, p, path) \<and> (f, p, path) \<in> set open_list \<and>
           (\<forall>e \<in> set open_list. f \<le> fst e) \<and>
           (p = end_t \<longrightarrow>
              find_path_step g end_t open_list closed_list =
                Inl (Inr (Some (path @ [p])), g)) \<and>
           (p \<noteq> end_t \<and> p \<in> closed_list \<longrightarrow>
              find_path_step g end_t open_list closed_list =
                Inr (g, remove1 (f, p, path) open_list, closed_list)) \<and>
           (p \<noteq> end_t \<and> p \<notin> closed_list \<longrightarrow>
              (\<forall>g' open2 closed2.
                 find_path_step g end_t open_list closed_list = Inr (g', open2, closed2) \<longrightarrow>
                 closed2 = insert p closed_list))"
    using mn mem low find_path_step_explores_min [OF mn, of end_t g closed_list]
    by (intro exI [of _ f] exI [of _ p] exI [of _ path]) blast
qed

theorem find_path_priority_keys_witness:
  "search_after street_grid (0, 1) (0, 2) 1 =
     Some ([(3, (0, 0), [(0, 1)]), (1, (0, 2), [(0, 1)])], {(0, 1)}) \<and>
   (3::int) = int (length [(0::int, 1::int)]) + manhattan (0, 0) (0, 2) \<and>
   (1::int) = int (length [(0::int, 1::int)]) + manhattan (0, 2) (0, 2) \<and>
   find_path street_grid (0, 1) (0, 2) =
     find_path_loop street_grid (0, 2) [(3, (0, 0), [(0, 1)]), (1, (0, 2), [(0, 1)])] {(0, 1)} \<and>
   min_list [(3::int, (0::int, 0::int), [(0::int, 1::int)]), (1, (0, 2), [(0, 1)])] =
     (1, (0, 2), [(0, 1)]) \<and>
   find_path_step street_grid (0, 2) [(3, (0, 0), [(0, 1)]), (1, (0, 2), [(0, 1)])] {(0, 1)} =
     Inl (Inr (Some [(0, 1), (0, 2)]), street_grid)"
proof -
  have st: "search_after street_grid (0, 1) (0, 2) 1 =
     Some ([(3, (0, 0), [(0, 1)]), (1, (0, 2), [(0, 1)])], {(0, 1)})"
    by code_simp
  have mn: "min_list [(3::int, (0::int, 0::int), [(0::int, 1::int)]), (1, (0, 2), [(0, 1)])] =
     (1, (0, 2), [(0, 1)])"
    by code_simp
  show ?thesis
    using find_path_priority_keys
      [of street_grid "(0, 1)" "(0, 2)" 1 "[(3, (0, 0), [(0, 1)]), (1, (0, 2), [(0, 1)])]" "{(0, 1)}"]
      st mn
    by (simp add: manhattan_def)
qed

text \<open>
  The claim as stated fails for the element the search starts with: from \<open>(0, 1)\<close> to
  \<open>(0, 2)\<close> it is in \<open>open_list\<close> with the key 0 after no edge, and the Manhattan
  distance to the end is 1.
\<close>

theorem find_path_priority_keys_counterexample:
  "search_after street_grid (0, 1) (0, 2) 0 = Some ([(0, (0, 1), [])], {}) \<and>
   (0::int) \<noteq> int (length ([] :: coord list)) + manhattan (0, 1) (0, 2)"
  by (simp add: manhattan_def)

lemma track_ok_members:
  assumes "track_ok g start t" "c \<in> set t"
  shows "c = start \<or> passable g c"
proof -
  from assms(1) obtain t' where t: "t = start # t'" and ok: "list_all (passable g) t'"
    by (cases t) (auto simp: track_ok_def)
  with assms(2) show ?thesis by (auto simp: list_all_iff)
qed

text \<open>
  C6. \<open>find_path\<close> is given the coordinates of two towers; for a start inside the grid,
  every coordinate of a returned path lies inside the grid and is the start, the end, or a
  block that reads as covered or as a tower at the time of the call, and every two
  consecutive coordinates are within Chebyshev distance 1. The path begins with the start
  and ends with the end.
\<close>

theorem find_path_result_path:
  "in_bounds g start \<and> fst (find_path g start end_t) = Inr (Some path) \<longrightarrow>
     path \<noteq> [] \<and> hd path = start \<and> last path = end_t \<and>
     (\<forall>c \<in> set path.
        in_bounds g c \<and>
        (c = start \<or> c = end_t \<or>
         get_cell g (fst c) (snd c) = Inr Covered \<or> get_cell g (fst c) (snd c) = Inr Station)) \<and>
     successively (\<lambda>p q. chebyshev p q \<le> 1) path"
proof
  assume a: "in_bounds g start \<and> fst (find_path g start end_t) = Inr (Some path)"
  then have st: "in_bounds g start"
    and fp: "fst (find_path g start end_t) = Inr (Some path)" by simp_all
  have "\<forall>e \<in> set [(0, start, [])]. entry_ok g start end_t e"
    by (simp add: entry_ok_initial)
  from find_path_loop_track [OF this fp [unfolded find_path_def]]
  have tr: "track_ok g start path" and lst: "last path = end_t" by simp_all
  have mem: "\<And>c. c \<in> set path \<Longrightarrow> c = start \<or> passable g c"
    using track_ok_members [OF tr] .
  have "\<forall>c \<in> set path.
        in_bounds g c \<and>
        (c = start \<or> c = end_t \<or>
         get_cell g (fst c) (snd c) = Inr Covered \<or> get_cell g (fst c) (snd c) = Inr Station)"
  proof
    fix c assume "c \<in> set path"
    from mem [OF this] st
    show "in_bounds g c \<and>
        (c = start \<or> c = end_t \<or>
         get_cell g (fst c) (snd c) = Inr Covered \<or> get_cell g (fst c) (snd c) = Inr Station)"
      by (auto simp: passable_def)
  qed
  then show "path \<noteq> [] \<and> hd path = start \<and> last path = end_t \<and>
     (\<forall>c \<in> set path.
        in_bounds g c \<and>
        (c = start \<or> c = end_t \<or>
         get_cell g (fst c) (snd c) = Inr Covered \<or> get_cell g (fst c) (snd c) = Inr Station)) \<and>
     successively (\<lambda>p q. chebyshev p q \<le> 1) path"
    using tr lst unfolding track_ok_def by blast
qed

theorem find_path_result_path_witness:
  "in_bounds street_grid (0, 0) \<and>
   fst (find_path street_grid (0, 0) (0, 3)) = Inr (Some [(0, 0), (0, 1), (0, 2), (0, 3)]) \<and>
   list_all (in_bounds street_grid) [(0, 0), (0, 1), (0, 2), (0, 3)] \<and>
   successively (\<lambda>p q. chebyshev p q \<le> 1) [(0, 0), (0, 1), (0, 2), (0, 3)] \<and>
   get_cell street_grid 0 1 = Inr Station \<and> get_cell street_grid 0 2 = Inr Station"
proof -
  have r: "fst (find_path street_grid (0, 0) (0, 3)) = Inr (Some [(0, 0), (0, 1), (0, 2), (0, 3)])"
    by code_simp
  have b: "in_bounds street_grid (0, 0)"
    by (simp add: street_grid_def in_bounds_def)
  have c: "get_cell street_grid 0 1 = Inr Station" "get_cell street_grid 0 2 = Inr Station"
    by (simp_all add: street_grid_def get_cell_def py_index_def py_norm_def)
  show ?thesis
    using find_path_result_path [of street_grid "(0, 0)" "(0, 3)" "[(0, 0), (0, 1), (0, 2), (0, 3)]"] r b c
    by simp
qed

lemma last_or_butlast: "q \<in> set t \<Longrightarrow> q = last t \<or> q \<in> set (butlast t)"
  by (induction t) auto

lemma path_positions:
  assumes "q \<in> set xs"
  shows "q = hd xs \<or> q = last xs \<or> q \<in> set (butlast (tl xs))"
proof (cases xs)
  case Nil
  with assms show ?thesis by simp
next
  case (Cons a t)
  show ?thesis
  proof (cases "q = a")
    case True
    with Cons show ?thesis by simp
  next
    case False
    with assms Cons have "q \<in> set t" by simp
    from last_or_butlast [OF this] Cons \<open>q \<in> set t\<close> show ?thesis by auto
  qed
qed

lemma passable_cell_at:
  "wf_grid g \<Longrightarrow> passable g c \<Longrightarrow> cell_at g c = Covered \<or> cell_at g c = Station"
proof -
  assume wf: "wf_grid g" and p: "passable g c"
  then have "in_bounds g (fst c, snd c)" by (simp add: passable_def)
  from get_cell_in_bounds [OF wf this] p show ?thesis by (auto simp: passable_def)
qed

text \<open>
  C3, as the code has it. \<open>build_path_on_grid\<close> overwrites the blocks of the path. For a
  path found by \<open>find_path\<close> from a start inside a well-formed grid, the call returns an
  object with the same dimensions, radius and list of towers; every block off the path
  is as before, so an obstruction or a tower off the path keeps its identity; every
  obstructed block other than the start is as before; and every block on the path holds
  one of the three markers, whatever it held, a tower included.
\<close>

theorem build_path_on_grid_overwrites_path:
  "wf_grid g \<and> in_bounds g start \<and> fst (find_path g start end_t) = Inr (Some path) \<longrightarrow>
     (\<exists>g'. build_path_on_grid g path = Inr g' \<and>
        n g' = n g \<and> m g' = m g \<and> tower_radius g' = tower_radius g \<and>
        towers g' = towers g \<and>
        (\<forall>q. in_bounds g q \<and> q \<notin> set path \<longrightarrow> cell_at g' q = cell_at g q) \<and>
        (\<forall>q. in_bounds g q \<and> q \<noteq> start \<and> cell_at g q = Obstructed \<longrightarrow>
             cell_at g' q = Obstructed) \<and>
        (\<forall>q \<in> set path.
           cell_at g' q = PathMark \<or> cell_at g' q = BeginMark \<or> cell_at g' q = EndMark))"
proof
  assume a: "wf_grid g \<and> in_bounds g start \<and> fst (find_path g start end_t) = Inr (Some path)"
  then have wf: "wf_grid g" and st: "in_bounds g start"
    and fp: "fst (find_path g start end_t) = Inr (Some path)" by simp_all
  have "\<forall>e \<in> set [(0, start, [])]. entry_ok g start end_t e"
    by (simp add: entry_ok_initial)
  from find_path_loop_track [OF this fp [unfolded find_path_def]]
  have tr: "track_ok g start path" by simp
  have ne: "path \<noteq> []" using tr by (simp add: track_ok_def)
  have mem: "\<And>c. c \<in> set path \<Longrightarrow> c = start \<or> passable g c"
    using track_ok_members [OF tr] .
  have inb: "list_all (in_bounds g) path"
    using mem st by (auto simp: list_all_iff passable_def)
  from build_path_on_grid_result [OF wf ne inb] obtain g' where
    res: "build_path_on_grid g path = Inr g'" and fr: "same_frame g g'"
    and cells: "\<And>q. in_bounds g q \<Longrightarrow>
        cell_at g' q =
          (if q = last path then EndMark
           else if q = hd path then BeginMark
           else if q \<in> set (butlast (tl path)) then PathMark
           else cell_at g q)"
    by blast
  have off: "\<And>q. in_bounds g q \<Longrightarrow> q \<notin> set path \<Longrightarrow> cell_at g' q = cell_at g q"
  proof -
    fix q assume q: "in_bounds g q" "q \<notin> set path"
    then have "q \<noteq> last path" "q \<noteq> hd path" "q \<notin> set (butlast (tl path))"
      using ne set_inner_subset [of path] by auto
    then show "cell_at g' q = cell_at g q" using cells [OF q(1)] by simp
  qed
  have obs: "\<And>q. in_bounds g q \<Longrightarrow> q \<noteq> start \<Longrightarrow> cell_at g q = Obstructed \<Longrightarrow>
      cell_at g' q = Obstructed"
  proof -
    fix q assume q: "in_bounds g q" "q \<noteq> start" "cell_at g q = Obstructed"
    have "q \<notin> set path"
    proof
      assume "q \<in> set path"
      then have "passable g q" using mem q(2) by blast
      from passable_cell_at [OF wf this] q(3) show False by simp
    qed
    from off [OF q(1) this] q(3) show "cell_at g' q = Obstructed" by simp
  qed
  have on: "\<forall>q \<in> set path.
      cell_at g' q = PathMark \<or> cell_at g' q = BeginMark \<or> cell_at g' q = EndMark"
  proof
    fix q assume q: "q \<in> set path"
    then have qb: "in_bounds g q" using inb by (simp add: list_all_iff)
    have "q = hd path \<or> q = last path \<or> q \<in> set (butlast (tl path))"
      using q by (rule path_positions)
    then show "cell_at g' q = PathMark \<or> cell_at g' q = BeginMark \<or> cell_at g' q = EndMark"
      using cells [OF qb] by auto
  qed
  show "\<exists>g'. build_path_on_grid g path = Inr g' \<and>
        n g' = n g \<and> m g' = m g \<and> tower_radius g' = tower_radius g \<and>
        towers g' = towers g \<and>
        (\<forall>q. in_bounds g q \<and> q \<notin> set path \<longrightarrow> cell_at g' q = cell_at g q) \<and>
        (\<forall>q. in_bounds g q \<and> q \<noteq> start \<and> cell_at g q = Obstructed \<longrightarrow>
             cell_at g' q = Obstructed) \<and>
        (\<forall>q \<in> set path.
           cell_at g' q = PathMark \<or> cell_at g' q = BeginMark \<or> cell_at g' q = EndMark)"
    using res fr off obs on unfolding same_frame_def by blast
qed

theorem build_path_on_grid_overwrites_path_witness:
  "wf_grid avenue_grid \<and> in_bounds avenue_grid (0, 1) \<and>
   fst (find_path avenue_grid (0, 1) (0, 3)) = Inr (Some [(0, 1), (0, 2), (0, 3)]) \<and>
   (\<exists>g'. build_path_on_grid avenue_grid [(0, 1), (0, 2), (0, 3)] = Inr g' \<and>
      towers g' = [(0, 1), (0, 3)] \<and>
      cell_at g' (0, 0) = Covered \<and> cell_at g' (0, 5) = Obstructed)"
proof -
  have wf: "wf_grid avenue_grid"
    by (simp add: avenue_grid_def wf_grid_def)
  have inb: "in_bounds avenue_grid (0, 1)" "in_bounds avenue_grid (0, 0)"
    "in_bounds avenue_grid (0, 5)"
    by (simp_all add: avenue_grid_def in_bounds_def)
  have fp: "fst (find_path avenue_grid (0, 1) (0, 3)) = Inr (Some [(0, 1), (0, 2), (0, 3)])"
    by code_simp
  have cs: "cell_at avenue_grid (0, 0) = Covered" "cell_at avenue_grid (0, 5) = Obstructed"
    "towers avenue_grid = [(0, 1), (0, 3)]"
    by (simp_all add: avenue_grid_def cell_at_def)
  from build_path_on_grid_overwrites_path
    [of avenue_grid "(0, 1)" "(0, 3)" "[(0, 1), (0, 2), (0, 3)]"] wf inb(1) fp
  obtain g' where g': "build_path_on_grid avenue_grid [(0, 1), (0, 2), (0, 3)] = Inr g'"
    "towers g' = towers avenue_grid"
    "\<forall>q. in_bounds avenue_grid q \<and> q \<notin> set [(0, 1), (0, 2), (0, 3)] \<longrightarrow>
        cell_at g' q = cell_at avenue_grid q"
    by blast
  have "cell_at g' (0, 0) = cell_at avenue_grid (0, 0)"
    using g'(3) inb(2) by fastforce
  moreover have "cell_at g' (0, 5) = cell_at avenue_grid (0, 5)"
    using g'(3) inb(3) by fastforce
  ultimately show ?thesis using wf inb(1) fp g'(1,2) cs by auto
qed

text \<open>
  The claim as stated fails: in the street the path found between the two towers is the
  two towers themselves, and marking it turns both into markers. The list of towers
  still holds \<open>(0, 1)\<close> and \<open>(0, 2)\<close>, which no longer hold a tower.
\<close>

theorem build_path_on_grid_counterexample:
  "fst (find_path street_grid (0, 1) (0, 2)) = Inr (Some [(0, 1), (0, 2)]) \<and>
   cell_at street_grid (0, 1) = Station \<and> cell_at street_grid (0, 2) = Station \<and>
   towers street_grid = [(0, 1), (0, 2)] \<and>
   build_path_on_grid street_grid [(0, 1), (0, 2)] =
     Inr (street_grid\<lparr>grid := [[Covered, BeginMark, EndMark, Covered]]\<rparr>)"
proof -
  have "fst (find_path street_grid (0, 1) (0, 2)) = Inr (Some [(0, 1), (0, 2)])"
    by code_simp
  moreover have "build_path_on_grid street_grid [(0, 1), (0, 2)] =
     Inr (street_grid\<lparr>grid := [[Covered, BeginMark, EndMark, Covered]]\<rparr>)"
    by (simp add: build_path_on_grid_def street_grid_def set_cell_def py_index_def py_norm_def)
  ultimately show ?thesis
    by (simp add: street_grid_def cell_at_def)
qed

section \<open>Properties of the placement loop\<close>

lemma count_uncovered_in_bounds:
  "wf_grid g \<Longrightarrow> list_all (in_bounds g) cs \<Longrightarrow>
   count_uncovered g cs acc = Inr (acc + int (length (uncovered_in g cs)))"
proof (induction cs arbitrary: acc)
  case Nil
  then show ?case by (simp add: uncovered_in_def)
next
  case (Cons c cs)
  obtain i j where c: "c = (i, j)" by (cases c) auto
  have rd: "get_cell g i j = Inr (cell_at g (i, j))"
    using get_cell_in_bounds [OF Cons.prems(1)] Cons.prems(2) c by simp
  have cs: "list_all (in_bounds g) cs" using Cons.prems(2) by simp
  show ?case
    unfolding c using rd Cons.IH [OF Cons.prems(1) cs] by (simp add: uncovered_in_def)
qed

lemma get_coverage_score:
  "wf_grid g \<Longrightarrow> get_coverage g x y (tower_radius g) = Inr (score g (x, y))"
  using count_uncovered_in_bounds [OF _ window_in_bounds, of g x y "tower_radius g" 0]
  by (simp add: get_coverage_def score_def window_def)

lemma collect_uncovered_in_bounds:
  "wf_grid g \<Longrightarrow> list_all (in_bounds g) cs \<Longrightarrow>
   collect_uncovered g cs acc = Inr (acc @ uncovered_in g cs)"
proof (induction cs arbitrary: acc)
  case Nil
  then show ?case by (simp add: uncovered_in_def)
next
  case (Cons c cs)
  obtain i j where c: "c = (i, j)" by (cases c) auto
  have rd: "get_cell g i j = Inr (cell_at g (i, j))"
    using get_cell_in_bounds [OF Cons.prems(1)] Cons.prems(2) c by simp
  have cs: "list_all (in_bounds g) cs" using Cons.prems(2) by simp
  show ?case
    unfolding c using rd Cons.IH [OF Cons.prems(1) cs] by (simp add: uncovered_in_def)
qed

lemma all_cells_list_in_bounds: "list_all (in_bounds g) (cells_between 0 (n g) 0 (m g))"
  by (simp add: list_all_iff all_cells_in_bounds)

lemma get_uncovered_blocks_eq:
  "wf_grid g \<Longrightarrow>
   get_uncovered_blocks g = Inr (uncovered_in g (cells_between 0 (n g) 0 (m g)))"
  using collect_uncovered_in_bounds [OF _ all_cells_list_in_bounds, of g "[]"]
  by (simp add: get_uncovered_blocks_def)

text \<open>
  The scan keeps the pair it has unless a candidate has a strictly larger score; the
  position it ends with is the first one in the list that reaches the final score.
\<close>

lemma best_scan_in_bounds:
  "wf_grid g \<Longrightarrow> list_all (in_bounds g) cs \<Longrightarrow>
   \<exists>b c. best_scan g cs (b0, c0) = Inr (b, c) \<and>
     (\<forall>q \<in> set cs. candidate g q \<longrightarrow> score g q \<le> c) \<and>
     ((b = b0 \<and> c = c0) \<or>
      (\<exists>pre p post. cs = pre @ p # post \<and> b = Some p \<and> candidate g p \<and> c = score g p \<and>
         c0 < c \<and> (\<forall>q \<in> set pre. candidate g q \<longrightarrow> score g q < c)))"
proof (induction cs arbitrary: b0 c0)
  case Nil
  then show ?case by simp
next
  case (Cons a cs)
  obtain i j where a: "a = (i, j)" by (cases a) auto
  have rd: "get_cell g i j = Inr (cell_at g (i, j))"
    using get_cell_in_bounds [OF Cons.prems(1)] Cons.prems(2) a by simp
  have cov: "get_coverage g i j (tower_radius g) = Inr (score g (i, j))"
    using get_coverage_score [OF Cons.prems(1)] .
  have cs: "list_all (in_bounds g) cs" using Cons.prems(2) by simp
  show ?case
  proof (cases "candidate g a \<and> c0 < score g a")
    case True
    then have step: "best_scan g (a # cs) (b0, c0) = best_scan g cs (Some a, score g a)"
      unfolding a using rd cov by (auto simp: candidate_def)
    from Cons.IH [OF Cons.prems(1) cs, of "Some a" "score g a"] obtain b c where
      r: "best_scan g cs (Some a, score g a) = Inr (b, c)"
      and le: "\<forall>q \<in> set cs. candidate g q \<longrightarrow> score g q \<le> c"
      and alt: "(b = Some a \<and> c = score g a) \<or>
        (\<exists>pre p post. cs = pre @ p # post \<and> b = Some p \<and> candidate g p \<and> c = score g p \<and>
           score g a < c \<and> (\<forall>q \<in> set pre. candidate g q \<longrightarrow> score g q < c))"
      by blast
    from alt show ?thesis
    proof
      assume u: "b = Some a \<and> c = score g a"
      have "a # cs = [] @ a # cs \<and> b = Some a \<and> candidate g a \<and> c = score g a \<and>
         c0 < c \<and> (\<forall>q \<in> set []. candidate g q \<longrightarrow> score g q < c)"
        using u True by simp
      then have "\<exists>pre p post. a # cs = pre @ p # post \<and> b = Some p \<and> candidate g p \<and>
         c = score g p \<and> c0 < c \<and> (\<forall>q \<in> set pre. candidate g q \<longrightarrow> score g q < c)"
        by blast
      moreover have "\<forall>q \<in> set (a # cs). candidate g q \<longrightarrow> score g q \<le> c"
        using le u by simp
      ultimately show ?thesis using step r by simp
    next
      assume "\<exists>pre p post. cs = pre @ p # post \<and> b = Some p \<and> candidate g p \<and> c = score g p \<and>
           score g a < c \<and> (\<forall>q \<in> set pre. candidate g q \<longrightarrow> score g q < c)"
      then obtain pre p post where
        v: "cs = pre @ p # post" "b = Some p" "candidate g p" "c = score g p"
          "score g a < c" "\<forall>q \<in> set pre. candidate g q \<longrightarrow> score g q < c"
        by blast
      have "a # cs = (a # pre) @ p # post \<and> b = Some p \<and> candidate g p \<and> c = score g p \<and>
         c0 < c \<and> (\<forall>q \<in> set (a # pre). candidate g q \<longrightarrow> score g q < c)"
        using v True by simp
      then have "\<exists>pre p post. a # cs = pre @ p # post \<and> b = Some p \<and> candidate g p \<and>
         c = score g p \<and> c0 < c \<and> (\<forall>q \<in> set pre. candidate g q \<longrightarrow> score g q < c)"
        by blast
      moreover have "\<forall>q \<in> set (a # cs). candidate g q \<longrightarrow> score g q \<le> c"
        using le v(5) by simp
      ultimately show ?thesis using step r by simp
    qed
  next
    case False
    then have step: "best_scan g (a # cs) (b0, c0) = best_scan g cs (b0, c0)"
      unfolding a using rd cov by (auto simp: candidate_def)
    from Cons.IH [OF Cons.prems(1) cs, of b0 c0] obtain b c where
      r: "best_scan g cs (b0, c0) = Inr (b, c)"
      and le: "\<forall>q \<in> set cs. candidate g q \<longrightarrow> score g q \<le> c"
      and alt: "(b = b0 \<and> c = c0) \<or>
        (\<exists>pre p post. cs = pre @ p # post \<and> b = Some p \<and> candidate g p \<and> c = score g p \<and>
           c0 < c \<and> (\<forall>q \<in> set pre. candidate g q \<longrightarrow> score g q < c))"
      by blast
    from alt show ?thesis
    proof
      assume u: "b = b0 \<and> c = c0"
      have "\<forall>q \<in> set (a # cs). candidate g q \<longrightarrow> score g q \<le> c"
        using le u False by auto
      then show ?thesis using step r u by simp
    next
      assume "\<exists>pre p post. cs = pre @ p # post \<and> b = Some p \<and> candidate g p \<and> c = score g p \<and>
           c0 < c \<and> (\<forall>q \<in> set pre. candidate g q \<longrightarrow> score g q < c)"
      then obtain pre p post where
        v: "cs = pre @ p # post" "b = Some p" "candidate g p" "c = score g p"
          "c0 < c" "\<forall>q \<in> set pre. candidate g q \<longrightarrow> score g q < c"
        by blast
      have small: "candidate g a \<longrightarrow> score g a < c" using False v(5) by auto
      have "a # cs = (a # pre) @ p # post \<and> b = Some p \<and> candidate g p \<and> c = score g p \<and>
         c0 < c \<and> (\<forall>q \<in> set (a # pre). candidate g q \<longrightarrow> score g q < c)"
        using v small by simp
      then have "\<exists>pre p post. a # cs = pre @ p # post \<and> b = Some p \<and> candidate g p \<and>
         c = score g p \<and> c0 < c \<and> (\<forall>q \<in> set pre. candidate g q \<longrightarrow> score g q < c)"
        by blast
      moreover have "\<forall>q \<in> set (a # cs). candidate g q \<longrightarrow> score g q \<le> c"
        using le small by auto
      ultimately show ?thesis using step r by simp
    qed
  qed
qed

text \<open>
  The nested loops visit the blocks in row-major order, which is the order of the
  coordinate pairs: first by row, then by column.
\<close>

lemma product_strictly_sorted:
  fixes xs :: "int list" and ys :: "int list"
  assumes "sorted_wrt (<) xs" "sorted_wrt (<) ys"
  shows "sorted_wrt (<) (List.product xs ys)"
  using assms
proof (induction xs)
  case Nil
  then show ?case by simp
next
  case (Cons x xs)
  have "sorted_wrt (<) (map (Pair x) ys)"
    using Cons.prems(2) by (simp add: sorted_wrt_map less_prod_def)
  moreover have "sorted_wrt (<) (List.product xs ys)"
    using Cons by simp
  moreover have "\<forall>p \<in> set (map (Pair x) ys). \<forall>q \<in> set (List.product xs ys). p < q"
    using Cons.prems(1) by (auto simp: less_prod_def)
  ultimately show ?case by (simp add: sorted_wrt_append)
qed

lemma cells_between_sorted: "sorted_wrt (<) (cells_between a b c d)"
  unfolding cells_between_def range_py_def
  by (rule product_strictly_sorted) (simp_all add: strict_sorted_iff)

lemma before_in_sorted:
  fixes p :: coord
  assumes "sorted_wrt (<) (pre @ p # post)" "q \<in> set (pre @ p # post)" "q < p"
  shows "q \<in> set pre"
proof (rule ccontr)
  assume "q \<notin> set pre"
  with assms(2) have "q = p \<or> q \<in> set post" by auto
  then show False
  proof
    assume "q = p" with assms(3) show False by simp
  next
    assume "q \<in> set post"
    with assms(1) have "p < q" by (simp add: sorted_wrt_append)
    with assms(3) show False by simp
  qed
qed

lemma score_positive:
  assumes "wf_grid g" "in_bounds g q" "cell_at g q = Empty"
  shows "0 < score g q"
proof -
  have "0 \<le> tower_radius g" using assms(1) by (simp add: wf_grid_def)
  then have "q \<in> set (window g (fst q) (snd q) (tower_radius g))"
    using centre_in_window [of g "fst q" "snd q" "tower_radius g"] assms(2) by simp
  then have "q \<in> set (uncovered_in g (window g (fst q) (snd q) (tower_radius g)))"
    using assms(3) by (simp add: uncovered_in_def)
  then have "0 < length (uncovered_in g (window g (fst q) (snd q) (tower_radius g)))"
    by (rule length_pos_if_in_set)
  then show ?thesis by (simp add: score_def)
qed

lemma best_scan_selected:
  assumes wf: "wf_grid g" and q0: "in_bounds g q0" "cell_at g q0 = Empty"
  shows "\<exists>p. best_scan g (cells_between 0 (n g) 0 (m g)) (None, 0) = Inr (Some p, score g p) \<and>
     in_bounds g p \<and> candidate g p \<and> 0 < score g p \<and>
     (\<forall>q. in_bounds g q \<and> candidate g q \<longrightarrow>
        score g q \<le> score g p \<and> (q < p \<longrightarrow> score g q < score g p))"
proof -
  let ?all = "cells_between 0 (n g) 0 (m g)"
  from best_scan_in_bounds [OF wf all_cells_list_in_bounds, of None 0] obtain b c where
    r: "best_scan g ?all (None, 0) = Inr (b, c)"
    and le: "\<forall>q \<in> set ?all. candidate g q \<longrightarrow> score g q \<le> c"
    and alt: "(b = None \<and> c = 0) \<or>
      (\<exists>pre p post. ?all = pre @ p # post \<and> b = Some p \<and> candidate g p \<and> c = score g p \<and>
         0 < c \<and> (\<forall>q \<in> set pre. candidate g q \<longrightarrow> score g q < c))"
    by blast
  have "q0 \<in> set ?all" using q0(1) by (simp add: all_cells_in_bounds)
  moreover have "candidate g q0" using q0(2) by (simp add: candidate_def)
  ultimately have "score g q0 \<le> c" using le by blast
  then have "0 < c" using score_positive [OF wf q0] by simp
  with alt obtain pre p post where
    v: "?all = pre @ p # post" "b = Some p" "candidate g p" "c = score g p"
      "\<forall>q \<in> set pre. candidate g q \<longrightarrow> score g q < c"
    by auto
  have "p \<in> set ?all" unfolding v(1) by simp
  then have pin: "in_bounds g p" by (simp add: all_cells_in_bounds)
  have srt: "sorted_wrt (<) (pre @ p # post)"
    using cells_between_sorted [of 0 "n g" 0 "m g"] unfolding v(1) .
  have "\<forall>q. in_bounds g q \<and> candidate g q \<longrightarrow>
        score g q \<le> score g p \<and> (q < p \<longrightarrow> score g q < score g p)"
  proof (intro allI impI)
    fix q assume q: "in_bounds g q \<and> candidate g q"
    then have mem: "q \<in> set ?all" by (simp add: all_cells_in_bounds)
    have a: "score g q \<le> score g p" using le mem q v(4) by blast
    have "q < p \<longrightarrow> score g q < score g p"
    proof
      assume "q < p"
      from before_in_sorted [OF srt _ this] mem have "q \<in> set pre" unfolding v(1) by blast
      with v(5) q show "score g q < score g p" unfolding v(4) by blast
    qed
    with a show "score g q \<le> score g p \<and> (q < p \<longrightarrow> score g q < score g p)" by blast
  qed
  with r v(2,3,4) pin \<open>0 < c\<close> show ?thesis by blast
qed

lemma filter_length_less:
  assumes "\<forall>x \<in> set xs. Q x \<longrightarrow> P x" "\<exists>x \<in> set xs. P x \<and> \<not> Q x"
  shows "length (filter Q xs) < length (filter P xs)"
  using assms
proof (induction xs)
  case Nil
  then show ?case by simp
next
  case (Cons a xs)
  have le: "length (filter Q xs) \<le> length (filter P xs)"
  proof -
    have "filter Q xs = filter Q (filter P xs)"
      using Cons.prems(1) by (simp add: filter_filter) (metis (mono_tags, lifting) filter_cong list.set_intros(2))
    then show ?thesis by (metis length_filter_le)
  qed
  show ?case
  proof (cases "P a \<and> \<not> Q a")
    case True
    with le show ?thesis by simp
  next
    case False
    with Cons.prems have "\<forall>x \<in> set xs. Q x \<longrightarrow> P x" "\<exists>x \<in> set xs. P x \<and> \<not> Q x" by auto
    from Cons.IH [OF this] Cons.prems(1) show ?thesis by auto
  qed
qed

text \<open>
  One pass through the body of the placement loop, on a well-formed object whose list of
  uncovered blocks is not empty: the position selected, the tower placed there, and the
  list of uncovered blocks getting shorter.
\<close>

lemma place_step_progress:
  assumes wf: "wf_grid g" and u: "get_uncovered_blocks g = Inr u" and ne: "u \<noteq> []"
  shows "\<exists>p g1 u1.
     best_scan g (cells_between 0 (n g) 0 (m g)) (None, 0) = Inr (Some p, score g p) \<and>
     in_bounds g p \<and> candidate g p \<and> 0 < score g p \<and>
     (\<forall>q. in_bounds g q \<and> candidate g q \<longrightarrow>
        score g q \<le> score g p \<and> (q < p \<longrightarrow> score g q < score g p)) \<and>
     place_tower g (fst p) (snd p) (tower_radius g) = Inr g1 \<and>
     place_step g u = Inr (g1, u1) \<and> get_uncovered_blocks g1 = Inr u1 \<and>
     wf_grid g1 \<and> n g1 = n g \<and> m g1 = m g \<and> tower_radius g1 = tower_radius g \<and>
     towers g1 = towers g @ [p] \<and>
     (\<forall>q. in_bounds g q \<longrightarrow>
        cell_at g1 q =
          (if q = p then Station
           else if q \<in> set (window g (fst p) (snd p) (tower_radius g)) \<and> cell_at g q = Empty
                then Covered
           else cell_at g q)) \<and>
     length u1 < length u \<and> set u1 \<subseteq> set u"
proof -
  let ?all = "cells_between 0 (n g) 0 (m g)"
  have ueq: "u = uncovered_in g ?all"
    using u get_uncovered_blocks_eq [OF wf] by simp
  from ne obtain q0 where "q0 \<in> set u" by (cases u) auto
  then have q0: "in_bounds g q0" "cell_at g q0 = Empty"
    unfolding ueq uncovered_in_def by (simp_all add: all_cells_in_bounds)
  from best_scan_selected [OF wf q0] obtain p where
    scan: "best_scan g ?all (None, 0) = Inr (Some p, score g p)"
    and pin: "in_bounds g p" and cand: "candidate g p" and pos: "0 < score g p"
    and best: "\<forall>q. in_bounds g q \<and> candidate g q \<longrightarrow>
        score g q \<le> score g p \<and> (q < p \<longrightarrow> score g q < score g p)"
    by blast
  obtain x y where p: "p = (x, y)" by (cases p) auto
  have free: "cell_at g (x, y) \<noteq> Station" "cell_at g (x, y) \<noteq> Obstructed"
    using cand unfolding p candidate_def by auto
  from place_tower_free [OF wf pin [unfolded p] free, of "tower_radius g"] obtain g1 where
    pt: "place_tower g x y (tower_radius g) = Inr g1"
    and wf1: "wf_grid g1" and fld: "n g1 = n g" "m g1 = m g" "tower_radius g1 = tower_radius g"
      "towers g1 = towers g @ [(x, y)]"
    and cells: "\<And>q. in_bounds g q \<Longrightarrow>
        cell_at g1 q =
          (if q = (x, y) then Station
           else if q \<in> set (window g x y (tower_radius g)) \<and> cell_at g q = Empty then Covered
           else cell_at g q)"
    by blast
  let ?u1 = "uncovered_in g1 ?all"
  have u1: "get_uncovered_blocks g1 = Inr ?u1"
    using get_uncovered_blocks_eq [OF wf1] fld by simp
  have st: "place_step g u = Inr (g1, ?u1)"
    unfolding place_step_def using scan pt u1 by (simp add: p display_info_def)
  have imp: "\<forall>q \<in> set ?all. cell_at g1 q = Empty \<longrightarrow> cell_at g q = Empty"
  proof (intro ballI impI)
    fix q assume "q \<in> set ?all" and e: "cell_at g1 q = Empty"
    then have "in_bounds g q" by (simp add: all_cells_in_bounds)
    from cells [OF this] e show "cell_at g q = Empty" by (auto split: if_splits)
  qed
  have "uncovered_in g (window g x y (tower_radius g)) \<noteq> []"
    using pos unfolding p score_def by auto
  then obtain q1 where "q1 \<in> set (uncovered_in g (window g x y (tower_radius g)))"
    by (cases "uncovered_in g (window g x y (tower_radius g))") auto
  then have q1: "q1 \<in> set (window g x y (tower_radius g))" "cell_at g q1 = Empty"
    by (simp_all add: uncovered_in_def)
  have q1in: "in_bounds g q1"
    using window_in_bounds [of g x y "tower_radius g"] q1(1) by (simp add: list_all_iff)
  have "cell_at g1 q1 \<noteq> Empty" using cells [OF q1in] q1 by simp
  moreover have "q1 \<in> set ?all" using q1in by (simp add: all_cells_in_bounds)
  ultimately have wit: "\<exists>q \<in> set ?all. cell_at g q = Empty \<and> \<not> cell_at g1 q = Empty"
    using q1(2) by blast
  have len: "length ?u1 < length u"
    unfolding ueq uncovered_in_def by (rule filter_length_less [OF imp wit])
  have sub: "set ?u1 \<subseteq> set u"
    unfolding ueq uncovered_in_def using imp by auto
  have cells': "\<forall>q. in_bounds g q \<longrightarrow>
        cell_at g1 q =
          (if q = p then Station
           else if q \<in> set (window g (fst p) (snd p) (tower_radius g)) \<and> cell_at g q = Empty
                then Covered
           else cell_at g q)"
    using cells unfolding p by simp
  show ?thesis
    using scan pin cand pos best pt st u1 wf1 fld cells' len sub
    unfolding p by (intro exI [of _ "(x, y)"] exI [of _ g1] exI [of _ ?u1]) simp
qed

lemma advanced_trans: "advanced a b \<Longrightarrow> advanced b c \<Longrightarrow> advanced a c"
  by (auto simp: advanced_def)

lemma place_loop_bounded_mono:
  "place_loop_bounded k g u = Some r \<Longrightarrow> k \<le> k' \<Longrightarrow> place_loop_bounded k' g u = Some r"
proof (induction k arbitrary: g u k')
  case 0
  then have "u = []" by (subst (asm) place_loop_bounded.simps) (auto split: if_splits)
  with 0 show ?case by (subst place_loop_bounded.simps) (simp add: place_loop_bounded.simps [of 0])
next
  case (Suc k)
  from Suc.prems(2) obtain j where j: "k' = Suc j" "k \<le> j" by (cases k') auto
  show ?case
  proof (cases "u = []")
    case True
    with Suc.prems(1) show ?thesis
      by (simp add: place_loop_bounded.simps [of "Suc k"] place_loop_bounded.simps [of k'])
  next
    case False
    show ?thesis
    proof (cases "place_step g u")
      case (Inl e)
      with False Suc.prems(1) show ?thesis
        by (simp add: place_loop_bounded.simps [of "Suc k"] place_loop_bounded.simps [of "Suc j"] j)
    next
      case (Inr t)
      obtain g1 u1 where t: "t = (g1, u1)" by (cases t) auto
      from Suc.prems(1) False Inr t have "place_loop_bounded k g1 u1 = Some r"
        by (simp add: place_loop_bounded.simps [of "Suc k"])
      from Suc.IH [OF this j(2)] False Inr t show ?thesis
        by (simp add: place_loop_bounded.simps [of "Suc j"] j)
    qed
  qed
qed

lemma place_loop_terminates:
  "wf_grid g \<Longrightarrow> get_uncovered_blocks g = Inr u \<Longrightarrow>
   \<exists>g'. place_loop g u = Some (Inr g') \<and> place_loop_bounded (length u) g u = Some (Inr g') \<and>
     wf_grid g' \<and> n g' = n g \<and> m g' = m g \<and> tower_radius g' = tower_radius g \<and>
     get_uncovered_blocks g' = Inr [] \<and>
     (\<forall>q. in_bounds g q \<longrightarrow> advanced (cell_at g q) (cell_at g' q))"
proof (induction "length u" arbitrary: g u rule: less_induct)
  case less
  show ?case
  proof (cases "u = []")
    case True
    have "place_loop g u = Some (Inr g)"
      using True by (subst place_loop.simps) simp
    moreover have "place_loop_bounded (length u) g u = Some (Inr g)"
      using True by (subst place_loop_bounded.simps) simp
    moreover have "\<forall>q. in_bounds g q \<longrightarrow> advanced (cell_at g q) (cell_at g q)"
      by (simp add: advanced_def)
    ultimately show ?thesis using less.prems True by blast
  next
    case False
    from place_step_progress [OF less.prems False] obtain p g1 u1 where
      cand: "candidate g p"
      and st: "place_step g u = Inr (g1, u1)" and u1: "get_uncovered_blocks g1 = Inr u1"
      and wf1: "wf_grid g1" and fld: "n g1 = n g" "m g1 = m g" "tower_radius g1 = tower_radius g"
      and cells: "\<And>q. in_bounds g q \<Longrightarrow>
        cell_at g1 q =
          (if q = p then Station
           else if q \<in> set (window g (fst p) (snd p) (tower_radius g)) \<and> cell_at g q = Empty
                then Covered
           else cell_at g q)"
      and len: "length u1 < length u"
      by blast
    from less.hyps [OF len wf1 u1] obtain g' where
      g': "place_loop g1 u1 = Some (Inr g')" "place_loop_bounded (length u1) g1 u1 = Some (Inr g')"
        "wf_grid g'" "n g' = n g1" "m g' = m g1" "tower_radius g' = tower_radius g1"
        "get_uncovered_blocks g' = Inr []"
      and adv': "\<And>q. in_bounds g1 q \<Longrightarrow> advanced (cell_at g1 q) (cell_at g' q)"
      by blast
    have a: "place_loop g u = Some (Inr g')"
      using False st g'(1) by (subst place_loop.simps) simp
    obtain k where k: "length u = Suc k" using False by (cases u) auto
    have "place_loop_bounded k g1 u1 = Some (Inr g')"
      using place_loop_bounded_mono [OF g'(2), of k] len k by simp
    then have b: "place_loop_bounded (length u) g u = Some (Inr g')"
      unfolding k using False st by (subst place_loop_bounded.simps) simp
    have adv: "\<forall>q. in_bounds g q \<longrightarrow> advanced (cell_at g q) (cell_at g' q)"
    proof (intro allI impI)
      fix q assume q: "in_bounds g q"
      have "advanced (cell_at g q) (cell_at g1 q)"
        using cells [OF q] cand by (auto simp: advanced_def candidate_def)
      moreover have "in_bounds g1 q" using q fld by (simp add: in_bounds_def)
      ultimately show "advanced (cell_at g q) (cell_at g' q)"
        using adv' advanced_trans by blast
    qed
    show ?thesis using a b g'(3-7) fld adv by simp
  qed
qed

lemma length_all_cells:
  assumes "0 \<le> n g" "0 \<le> m g"
  shows "length (cells_between 0 (n g) 0 (m g)) = nat (n g * m g)"
  using assms by (simp add: cells_between_def range_py_def nat_mult_distrib)

lemma length_uncovered_le: "wf_grid g \<Longrightarrow> get_uncovered_blocks g = Inr u \<Longrightarrow> length u \<le> nat (n g * m g)"
proof -
  assume wf: "wf_grid g" and u: "get_uncovered_blocks g = Inr u"
  have "u = uncovered_in g (cells_between 0 (n g) 0 (m g))"
    using u get_uncovered_blocks_eq [OF wf] by simp
  then have "length u \<le> length (cells_between 0 (n g) 0 (m g))"
    by (simp add: uncovered_in_def)
  also have "\<dots> = nat (n g * m g)"
    using wf by (intro length_all_cells) (simp_all add: wf_grid_def)
  finally show ?thesis .
qed

lemma no_uncovered_iff:
  "wf_grid g \<Longrightarrow>
   get_uncovered_blocks g = Inr [] \<longleftrightarrow> (\<forall>q. in_bounds g q \<longrightarrow> cell_at g q \<noteq> Empty)"
  by (simp add: get_uncovered_blocks_eq uncovered_in_def filter_empty_conv all_cells_in_bounds)

text \<open>Every block of the list of rows is the block at a coordinate inside the grid.\<close>

lemma all_blocks_iff:
  assumes "wf_grid g"
  shows "list_all (list_all P) (grid g) \<longleftrightarrow> (\<forall>q. in_bounds g q \<longrightarrow> P (cell_at g q))"
proof
  assume a: "list_all (list_all P) (grid g)"
  show "\<forall>q. in_bounds g q \<longrightarrow> P (cell_at g q)"
  proof (intro allI impI)
    fix q assume q: "in_bounds g q"
    then have i: "nat (fst q) < length (grid g)" and "0 \<le> fst q" "fst q < n g"
      using assms by (simp_all add: in_bounds_def wf_grid_def)
    then have j: "nat (snd q) < length (grid g ! nat (fst q))"
      using wf_grid_row_length [OF assms, of "fst q"] q by (simp add: in_bounds_def)
    from a i have "list_all P (grid g ! nat (fst q))" by (simp add: list_all_length)
    with j show "P (cell_at g q)" by (simp add: list_all_length cell_at_def)
  qed
next
  assume a: "\<forall>q. in_bounds g q \<longrightarrow> P (cell_at g q)"
  show "list_all (list_all P) (grid g)"
    unfolding list_all_length
  proof (intro allI impI)
    fix i j assume i: "i < length (grid g)" and j: "j < length (grid g ! i)"
    have "length (grid g ! i) = nat (m g)"
      using wf_grid_row_length [OF assms, of "int i"] i assms by (simp add: wf_grid_def)
    then have "in_bounds g (int i, int j)"
      using i j assms by (auto simp: in_bounds_def wf_grid_def)
    with a have "P (cell_at g (int i, int j))" by blast
    then show "P (grid g ! i ! j)" by (simp add: cell_at_def)
  qed
qed

text \<open>
  C2. On every well-formed object \<open>place_optimal_towers\<close> returns, with no exception, an
  object without uncovered blocks, and a budget of \<open>n * m\<close> passes through the loop body
  is enough. Every pass on a well-formed object with uncovered blocks leaves a
  well-formed object whose list of uncovered blocks is strictly shorter and holds no new
  block. When every block is obstructed the loop body never runs: the list of uncovered
  blocks is empty at once, and the object, its list of towers included, is returned as
  it is.
\<close>

theorem place_optimal_towers_terminates:
  "wf_grid g \<longrightarrow>
     (\<exists>g' u. get_uncovered_blocks g = Inr u \<and>
        place_optimal_towers g = Some (Inr g') \<and>
        place_loop_bounded (nat (n g * m g)) g u = Some (Inr g') \<and>
        get_uncovered_blocks g' = Inr []) \<and>
     (\<forall>u. get_uncovered_blocks g = Inr u \<and> u \<noteq> [] \<longrightarrow>
        (\<exists>g1 u1. place_step g u = Inr (g1, u1) \<and> wf_grid g1 \<and>
           get_uncovered_blocks g1 = Inr u1 \<and> length u1 < length u \<and> set u1 \<subseteq> set u)) \<and>
     ((\<forall>q. in_bounds g q \<longrightarrow> cell_at g q = Obstructed) \<longrightarrow>
        get_uncovered_blocks g = Inr [] \<and> place_optimal_towers g = Some (Inr g) \<and>
        place_loop_bounded 0 g [] = Some (Inr g))"
proof (intro impI conjI)
  assume wf: "wf_grid g"
  let ?u = "uncovered_in g (cells_between 0 (n g) 0 (m g))"
  have u: "get_uncovered_blocks g = Inr ?u" using get_uncovered_blocks_eq [OF wf] .
  from place_loop_terminates [OF wf u] obtain g' where
    g': "place_loop g ?u = Some (Inr g')" "place_loop_bounded (length ?u) g ?u = Some (Inr g')"
      "get_uncovered_blocks g' = Inr []"
    by blast
  have "place_optimal_towers g = Some (Inr g')"
    using u g'(1) by (simp add: place_optimal_towers_def)
  moreover have "place_loop_bounded (nat (n g * m g)) g ?u = Some (Inr g')"
    using place_loop_bounded_mono [OF g'(2) length_uncovered_le [OF wf u]] .
  ultimately show "\<exists>g' u. get_uncovered_blocks g = Inr u \<and>
        place_optimal_towers g = Some (Inr g') \<and>
        place_loop_bounded (nat (n g * m g)) g u = Some (Inr g') \<and>
        get_uncovered_blocks g' = Inr []"
    using u g'(3) by blast
next
  assume wf: "wf_grid g"
  show "\<forall>u. get_uncovered_blocks g = Inr u \<and> u \<noteq> [] \<longrightarrow>
        (\<exists>g1 u1. place_step g u = Inr (g1, u1) \<and> wf_grid g1 \<and>
           get_uncovered_blocks g1 = Inr u1 \<and> length u1 < length u \<and> set u1 \<subseteq> set u)"
  proof (intro allI impI)
    fix u assume "get_uncovered_blocks g = Inr u \<and> u \<noteq> []"
    then have u: "get_uncovered_blocks g = Inr u" "u \<noteq> []" by simp_all
    from place_step_progress [OF wf u] show "\<exists>g1 u1. place_step g u = Inr (g1, u1) \<and> wf_grid g1 \<and>
           get_uncovered_blocks g1 = Inr u1 \<and> length u1 < length u \<and> set u1 \<subseteq> set u"
      by blast
  qed
next
  assume wf: "wf_grid g" and obs: "\<forall>q. in_bounds g q \<longrightarrow> cell_at g q = Obstructed"
  then have "\<forall>q. in_bounds g q \<longrightarrow> cell_at g q \<noteq> Empty" by simp
  then show u: "get_uncovered_blocks g = Inr []"
    using no_uncovered_iff [OF wf] by simp
  have "place_loop g [] = Some (Inr g)"
    by (subst place_loop.simps) simp
  then show "place_optimal_towers g = Some (Inr g)"
    by (simp add: place_optimal_towers_def u)
  show "place_loop_bounded 0 g [] = Some (Inr g)"
    by (subst place_loop_bounded.simps) simp
qed

theorem place_optimal_towers_terminates_witness:
  "wf_grid empty_street \<and>
   place_optimal_towers empty_street = Some (Inr street_grid) \<and>
   place_loop_bounded 4 empty_street [(0, 0), (0, 1), (0, 2), (0, 3)] = Some (Inr street_grid) \<and>
   (\<exists>g1 u1. place_step empty_street [(0, 0), (0, 1), (0, 2), (0, 3)] = Inr (g1, u1) \<and>
      length u1 < 4) \<and>
   wf_grid walled_grid \<and> place_optimal_towers walled_grid = Some (Inr walled_grid)"
proof -
  have wf: "wf_grid empty_street" "wf_grid walled_grid"
    by (simp_all add: empty_street_def walled_grid_def wf_grid_def)
  have u: "get_uncovered_blocks empty_street = Inr [(0, 0), (0, 1), (0, 2), (0, 3)]"
    by code_simp
  have r: "place_optimal_towers empty_street = Some (Inr street_grid)"
    by code_simp
  have obs: "\<forall>q. in_bounds walled_grid q \<longrightarrow> cell_at walled_grid q = Obstructed"
  proof (intro allI impI)
    fix q assume "in_bounds walled_grid q"
    then have "fst q = 0" "snd q = 0 \<or> snd q = 1"
      by (auto simp: in_bounds_def walled_grid_def)
    then show "cell_at walled_grid q = Obstructed"
      by (auto simp: cell_at_def walled_grid_def)
  qed
  have nm: "nat (n empty_street * m empty_street) = 4"
    by (simp add: empty_street_def)
  from place_optimal_towers_terminates [of empty_street] wf(1) u r nm
  have a: "place_loop_bounded 4 empty_street [(0, 0), (0, 1), (0, 2), (0, 3)] = Some (Inr street_grid)"
    and b: "\<exists>g1 u1. place_step empty_street [(0, 0), (0, 1), (0, 2), (0, 3)] = Inr (g1, u1) \<and>
      length u1 < 4"
    by auto
  from place_optimal_towers_terminates [of walled_grid] wf(2) obs
  have c: "place_optimal_towers walled_grid = Some (Inr walled_grid)" by blast
  show ?thesis using wf r a b c by blast
qed

text \<open>
  C1. On a well-formed object without obstructed blocks, whose blocks hold \<open>0\<close>, \<open>'#'\<close> or
  \<open>'|'\<close> (before any path is marked there is nothing else), \<open>place_optimal_towers\<close>
  returns an object of the same dimensions in which every block holds \<open>'#'\<close> or \<open>'|'\<close>:
  no block holding \<open>0\<close> remains.
\<close>

theorem place_optimal_towers_covers_all:
  "wf_grid g \<and>
   list_all (list_all (\<lambda>c. c = Empty \<or> c = Covered \<or> c = Station)) (grid g) \<longrightarrow>
     (\<exists>g'. place_optimal_towers g = Some (Inr g') \<and> wf_grid g' \<and>
        n g' = n g \<and> m g' = m g \<and>
        list_all (list_all (\<lambda>c. c = Covered \<or> c = Station)) (grid g'))"
proof
  assume a: "wf_grid g \<and>
    list_all (list_all (\<lambda>c. c = Empty \<or> c = Covered \<or> c = Station)) (grid g)"
  then have wf: "wf_grid g" by simp
  from a have "\<forall>q. in_bounds g q \<longrightarrow>
      cell_at g q = Empty \<or> cell_at g q = Covered \<or> cell_at g q = Station"
    using all_blocks_iff [OF wf, of "\<lambda>c. c = Empty \<or> c = Covered \<or> c = Station"] by simp
  then have init: "\<And>q. in_bounds g q \<Longrightarrow>
      cell_at g q = Empty \<or> cell_at g q = Covered \<or> cell_at g q = Station"
    by blast
  let ?u = "uncovered_in g (cells_between 0 (n g) 0 (m g))"
  have u: "get_uncovered_blocks g = Inr ?u" using get_uncovered_blocks_eq [OF wf] .
  from place_loop_terminates [OF wf u] obtain g' where
    g': "place_loop g ?u = Some (Inr g')" "wf_grid g'" "n g' = n g" "m g' = m g"
      "get_uncovered_blocks g' = Inr []"
    and adv: "\<And>q. in_bounds g q \<Longrightarrow> advanced (cell_at g q) (cell_at g' q)"
    by blast
  have res: "place_optimal_towers g = Some (Inr g')"
    using u g'(1) by (simp add: place_optimal_towers_def)
  have "\<forall>q. in_bounds g' q \<longrightarrow> cell_at g' q \<noteq> Empty"
    using no_uncovered_iff [OF g'(2)] g'(5) by simp
  then have none: "\<And>q. in_bounds g' q \<Longrightarrow> cell_at g' q \<noteq> Empty"
    by blast
  have "\<forall>q. in_bounds g' q \<longrightarrow> cell_at g' q = Covered \<or> cell_at g' q = Station"
  proof (intro allI impI)
    fix q assume q': "in_bounds g' q"
    then have q: "in_bounds g q" using g'(3,4) by (simp add: in_bounds_def)
    from init [OF q] adv [OF q] none [OF q']
    show "cell_at g' q = Covered \<or> cell_at g' q = Station"
      unfolding advanced_def by metis
  qed
  then have "list_all (list_all (\<lambda>c. c = Covered \<or> c = Station)) (grid g')"
    using all_blocks_iff [OF g'(2), of "\<lambda>c. c = Covered \<or> c = Station"] by simp
  with res g'(2,3,4) show "\<exists>g'. place_optimal_towers g = Some (Inr g') \<and> wf_grid g' \<and>
        n g' = n g \<and> m g' = m g \<and>
        list_all (list_all (\<lambda>c. c = Covered \<or> c = Station)) (grid g')"
    by blast
qed

theorem place_optimal_towers_covers_all_witness:
  "wf_grid empty_street \<and>
   list_all (list_all (\<lambda>c. c = Empty \<or> c = Covered \<or> c = Station)) (grid empty_street) \<and>
   place_optimal_towers empty_street = Some (Inr street_grid) \<and>
   list_all (list_all (\<lambda>c. c = Covered \<or> c = Station)) (grid street_grid)"
proof -
  have wf: "wf_grid empty_street"
    by (simp add: empty_street_def wf_grid_def)
  have init: "list_all (list_all (\<lambda>c. c = Empty \<or> c = Covered \<or> c = Station)) (grid empty_street)"
    by (simp add: empty_street_def)
  have r: "place_optimal_towers empty_street = Some (Inr street_grid)"
    by code_simp
  from place_optimal_towers_covers_all [of empty_street] wf init
  obtain g' where "place_optimal_towers empty_street = Some (Inr g')"
    "list_all (list_all (\<lambda>c. c = Covered \<or> c = Station)) (grid g')"
    by blast
  with r have "list_all (list_all (\<lambda>c. c = Covered \<or> c = Station)) (grid street_grid)"
    by simp
  with wf init r show ?thesis by simp
qed

text \<open>
  C5. In a pass through the body of the placement loop (a well-formed object with at least
  one uncovered block) the scan ends with a position \<open>p\<close> and its coverage \<open>c\<close>: \<open>p\<close> is a
  block inside the grid that holds \<open>0\<close> or \<open>'#'\<close>, \<open>c\<close> is its positive coverage, no block
  holding \<open>0\<close> or \<open>'#'\<close> has a larger coverage, and every such block that comes before \<open>p\<close>
  in row-major order has a strictly smaller one. The tower is placed at \<open>p\<close>: the pass
  ends with the object \<open>place_tower\<close> returns for \<open>p\<close>, where \<open>p\<close> holds the tower and is
  the last element of the list of towers.
\<close>

theorem place_step_selects_first_maximum:
  "wf_grid g \<and> get_uncovered_blocks g = Inr u \<and> u \<noteq> [] \<longrightarrow>
     (\<exists>p c. best_scan g (cells_between 0 (n g) 0 (m g)) (None, 0) = Inr (Some p, c) \<and>
        in_bounds g p \<and> (cell_at g p = Empty \<or> cell_at g p = Covered) \<and>
        get_coverage g (fst p) (snd p) (tower_radius g) = Inr c \<and> 0 < c \<and>
        (\<forall>q. in_bounds g q \<and> (cell_at g q = Empty \<or> cell_at g q = Covered) \<longrightarrow>
           (\<exists>d. get_coverage g (fst q) (snd q) (tower_radius g) = Inr d \<and> d \<le> c \<and>
                (q < p \<longrightarrow> d < c))) \<and>
        (\<exists>g1 u1. place_tower g (fst p) (snd p) (tower_radius g) = Inr g1 \<and>
           place_step g u = Inr (g1, u1) \<and> get_uncovered_blocks g1 = Inr u1 \<and>
           cell_at g1 p = Station \<and> towers g1 = towers g @ [p]))"
proof
  assume a: "wf_grid g \<and> get_uncovered_blocks g = Inr u \<and> u \<noteq> []"
  then have wf: "wf_grid g" and u: "get_uncovered_blocks g = Inr u" "u \<noteq> []" by simp_all
  from place_step_progress [OF wf u] obtain p g1 u1 where
    scan: "best_scan g (cells_between 0 (n g) 0 (m g)) (None, 0) = Inr (Some p, score g p)"
    and pin: "in_bounds g p" and cand: "candidate g p" and pos: "0 < score g p"
    and best: "\<And>q. in_bounds g q \<and> candidate g q \<Longrightarrow>
        score g q \<le> score g p \<and> (q < p \<longrightarrow> score g q < score g p)"
    and pt: "place_tower g (fst p) (snd p) (tower_radius g) = Inr g1"
    and st: "place_step g u = Inr (g1, u1)" "get_uncovered_blocks g1 = Inr u1"
    and tw: "towers g1 = towers g @ [p]"
    and cells: "\<And>q. in_bounds g q \<Longrightarrow>
        cell_at g1 q =
          (if q = p then Station
           else if q \<in> set (window g (fst p) (snd p) (tower_radius g)) \<and> cell_at g q = Empty
                then Covered
           else cell_at g q)"
    by blast
  have cov: "\<And>q. get_coverage g (fst q) (snd q) (tower_radius g) = Inr (score g q)"
    using get_coverage_score [OF wf] by simp
  have others: "\<forall>q. in_bounds g q \<and> (cell_at g q = Empty \<or> cell_at g q = Covered) \<longrightarrow>
           (\<exists>d. get_coverage g (fst q) (snd q) (tower_radius g) = Inr d \<and> d \<le> score g p \<and>
                (q < p \<longrightarrow> d < score g p))"
  proof (intro allI impI)
    fix q assume "in_bounds g q \<and> (cell_at g q = Empty \<or> cell_at g q = Covered)"
    then have "in_bounds g q \<and> candidate g q" by (auto simp: candidate_def)
    from best [OF this] cov [of q]
    show "\<exists>d. get_coverage g (fst q) (snd q) (tower_radius g) = Inr d \<and> d \<le> score g p \<and>
                (q < p \<longrightarrow> d < score g p)"
      by blast
  qed
  have "cell_at g1 p = Station" using cells [OF pin] by simp
  then have placed: "\<exists>g1 u1. place_tower g (fst p) (snd p) (tower_radius g) = Inr g1 \<and>
           place_step g u = Inr (g1, u1) \<and> get_uncovered_blocks g1 = Inr u1 \<and>
           cell_at g1 p = Station \<and> towers g1 = towers g @ [p]"
    using pt st tw by blast
  have "cell_at g p = Empty \<or> cell_at g p = Covered"
    using cand by (auto simp: candidate_def)
  then have "best_scan g (cells_between 0 (n g) 0 (m g)) (None, 0) = Inr (Some p, score g p) \<and>
        in_bounds g p \<and> (cell_at g p = Empty \<or> cell_at g p = Covered) \<and>
        get_coverage g (fst p) (snd p) (tower_radius g) = Inr (score g p) \<and> 0 < score g p \<and>
        (\<forall>q. in_bounds g q \<and> (cell_at g q = Empty \<or> cell_at g q = Covered) \<longrightarrow>
           (\<exists>d. get_coverage g (fst q) (snd q) (tower_radius g) = Inr d \<and> d \<le> score g p \<and>
                (q < p \<longrightarrow> d < score g p))) \<and>
        (\<exists>g1 u1. place_tower g (fst p) (snd p) (tower_radius g) = Inr g1 \<and>
           place_step g u = Inr (g1, u1) \<and> get_uncovered_blocks g1 = Inr u1 \<and>
           cell_at g1 p = Station \<and> towers g1 = towers g @ [p])"
    using scan pin cov [of p] pos others placed by (intro conjI)
  then show "\<exists>p c. best_scan g (cells_between 0 (n g) 0 (m g)) (None, 0) = Inr (Some p, c) \<and>
        in_bounds g p \<and> (cell_at g p = Empty \<or> cell_at g p = Covered) \<and>
        get_coverage g (fst p) (snd p) (tower_radius g) = Inr c \<and> 0 < c \<and>
        (\<forall>q. in_bounds g q \<and> (cell_at g q = Empty \<or> cell_at g q = Covered) \<longrightarrow>
           (\<exists>d. get_coverage g (fst q) (snd q) (tower_radius g) = Inr d \<and> d \<le> c \<and>
                (q < p \<longrightarrow> d < c))) \<and>
        (\<exists>g1 u1. place_tower g (fst p) (snd p) (tower_radius g) = Inr g1 \<and>
           place_step g u = Inr (g1, u1) \<and> get_uncovered_blocks g1 = Inr u1 \<and>
           cell_at g1 p = Station \<and> towers g1 = towers g @ [p])"
    by (intro exI [of _ p] exI [of _ "score g p"])
qed

theorem place_step_selects_first_maximum_witness:
  "wf_grid empty_street \<and>
   get_uncovered_blocks empty_street = Inr [(0, 0), (0, 1), (0, 2), (0, 3)] \<and>
   best_scan empty_street (cells_between 0 1 0 4) (None, 0) = Inr (Some (0, 1), 3) \<and>
   get_coverage empty_street 0 1 1 = Inr 3 \<and> get_coverage empty_street 0 2 1 = Inr 3 \<and>
   get_coverage empty_street 0 0 1 = Inr 2 \<and>
   (\<exists>g1 u1. place_tower empty_street 0 1 1 = Inr g1 \<and>
      place_step empty_street [(0, 0), (0, 1), (0, 2), (0, 3)] = Inr (g1, u1) \<and>
      cell_at g1 (0, 1) = Station \<and> towers g1 = [(0, 1)])"
proof -
  have wf: "wf_grid empty_street"
    by (simp add: empty_street_def wf_grid_def)
  have u: "get_uncovered_blocks empty_street = Inr [(0, 0), (0, 1), (0, 2), (0, 3)]"
    by code_simp
  have nm: "n empty_street = 1" "m empty_street = 4" "tower_radius empty_street = 1"
    "towers empty_street = []"
    by (simp_all add: empty_street_def)
  have sc: "best_scan empty_street (cells_between 0 1 0 4) (None, 0) = Inr (Some (0, 1), 3)"
    by code_simp
  have cov: "get_coverage empty_street 0 1 1 = Inr 3" "get_coverage empty_street 0 2 1 = Inr 3"
    "get_coverage empty_street 0 0 1 = Inr 2"
    by code_simp+
  from place_step_selects_first_maximum [of empty_street "[(0, 0), (0, 1), (0, 2), (0, 3)]"] wf u
  obtain p c g1 u1 where
    a: "best_scan empty_street (cells_between 0 (n empty_street) 0 (m empty_street)) (None, 0) =
          Inr (Some p, c)"
    and b: "place_tower empty_street (fst p) (snd p) (tower_radius empty_street) = Inr g1"
      "place_step empty_street [(0, 0), (0, 1), (0, 2), (0, 3)] = Inr (g1, u1)"
      "cell_at g1 p = Station" "towers g1 = towers empty_street @ [p]"
    by auto
  from a sc have p: "p = (0, 1)" unfolding nm by simp
  have "\<exists>g1 u1. place_tower empty_street 0 1 1 = Inr g1 \<and>
      place_step empty_street [(0, 0), (0, 1), (0, 2), (0, 3)] = Inr (g1, u1) \<and>
      cell_at g1 (0, 1) = Station \<and> towers g1 = [(0, 1)]"
    using b unfolding p nm by auto
  with wf u sc cov show ?thesis by simp
qed

text \<open>The street of six blocks is what placement makes of five free blocks and an obstruction.\<close>

lemma avenue_grid_placed:
  "place_optimal_towers
     \<lparr>n = 1, m = 6, tower_radius = 1,
      grid = [[Empty, Empty, Empty, Empty, Empty, Obstructed]], towers = []\<rparr> =
   Some (Inr avenue_grid)"
  by code_simp

end
